theory Spec2Isabelle
  imports Complex_Main "HOL-Library.Log_Nat"
begin

section \<open>The deduplicating work queue (util/workqueue: \<open>Type\<close>)\<close>

text \<open>
  The Go struct \<open>Type[T]\<close> holds the ordered slice \<open>queue\<close>, the two sets
  \<open>dirty\<close> and \<open>processing\<close> (Go maps to the empty struct) and the flags
  \<open>shuttingDown\<close> and \<open>drain\<close>. Every method runs under the queue's mutex, so a
  method is one atomic step on the state. The condition variable carries no data: its
  \<open>Signal\<close> and \<open>Broadcast\<close> calls wake threads and change no field. The clock and the
  update period are not read by any of the methods below.
\<close>

record 'a Type =
  queue :: "'a list"
  dirty :: "'a set"
  processing :: "'a set"
  shuttingDown :: bool
  drain :: bool

text \<open>\<open>newQueue\<close>: an empty slice, two empty sets, both flags false.\<close>

definition newQueue :: "'a Type" where
  "newQueue = \<lparr>queue = [], dirty = {}, processing = {}, shuttingDown = False, drain = False\<rparr>"

text \<open>
  \<open>Add\<close>: returns at once when shutting down or when the item is dirty already;
  otherwise marks it dirty and, unless it is being processed, appends it to the queue.
\<close>

definition Add :: "'a \<Rightarrow> 'a Type \<Rightarrow> 'a Type" where
  "Add item q =
     (if shuttingDown q then q
      else if item \<in> dirty q then q
      else if item \<in> processing q then q\<lparr>dirty := insert item (dirty q)\<rparr>
      else q\<lparr>dirty := insert item (dirty q), queue := queue q @ [item]\<rparr>)"

definition Len :: "'a Type \<Rightarrow> nat" where
  "Len q = length (queue q)"

text \<open>
  \<open>Get\<close> waits on the condition variable while the queue is empty and not shutting
  down: in that state the call does not return and the state is as it was
  (\<open>GetWaits\<close>). With an empty queue while shutting down it returns the zero value and
  \<open>shutdown = true\<close> (\<open>GetShutDown\<close>). Otherwise it takes the head of the queue, puts
  it in \<open>processing\<close> and removes it from \<open>dirty\<close>.
\<close>

datatype 'a get_result = GetWaits | GetShutDown | GetItem 'a

definition Get :: "'a Type \<Rightarrow> 'a get_result \<times> 'a Type" where
  "Get q =
     (case queue q of
        [] \<Rightarrow> (if shuttingDown q then (GetShutDown, q) else (GetWaits, q))
      | item # rest \<Rightarrow>
          (GetItem item,
           q\<lparr>queue := rest, processing := insert item (processing q),
             dirty := dirty q - {item}\<rparr>))"

text \<open>
  \<open>Done\<close>: removes the item from \<open>processing\<close>; when it is dirty it is appended to
  the queue. (The other branch only signals the condition variable.)
\<close>

definition Done :: "'a \<Rightarrow> 'a Type \<Rightarrow> 'a Type" where
  "Done item q =
     (if item \<in> dirty q
      then q\<lparr>processing := processing q - {item}, queue := queue q @ [item]\<rparr>
      else q\<lparr>processing := processing q - {item}\<rparr>)"

text \<open>\<open>setDrain\<close>, \<open>shutdown\<close> and the two public shutdown methods.\<close>

definition setDrain :: "bool \<Rightarrow> 'a Type \<Rightarrow> 'a Type" where
  "setDrain shouldDrain q = q\<lparr>drain := shouldDrain\<rparr>"

definition shutdown :: "'a Type \<Rightarrow> 'a Type" where
  "shutdown q = q\<lparr>shuttingDown := True\<rparr>"

definition ShutDown :: "'a Type \<Rightarrow> 'a Type" where
  "ShutDown q = shutdown (setDrain False q)"

definition isProcessing :: "'a Type \<Rightarrow> bool" where
  "isProcessing q = (processing q \<noteq> {})"

definition shouldDrain :: "'a Type \<Rightarrow> bool" where
  "shouldDrain q = drain q"

text \<open>
  \<open>ShutDownWithDrain\<close> sets both flags and then waits while \<open>isProcessing\<close> and
  \<open>shouldDrain\<close> hold; the waiting changes no field. The state it leaves is
  \<open>ShutDownWithDrain q\<close>, and \<open>drainWaits\<close> says whether the caller is still held.
\<close>

definition ShutDownWithDrain :: "'a Type \<Rightarrow> 'a Type" where
  "ShutDownWithDrain q = shutdown (setDrain True q)"

definition drainWaits :: "'a Type \<Rightarrow> bool" where
  "drainWaits q = (isProcessing q \<and> shouldDrain q)"

definition ShuttingDown :: "'a Type \<Rightarrow> bool" where
  "ShuttingDown q = shuttingDown q"

subsection \<open>Sequences of calls\<close>

text \<open>
  The calls of the \<open>Interface\<close>, as data, and their effect on the state. \<open>Len\<close> and
  \<open>ShuttingDown\<close> only read.
\<close>

datatype 'a call =
    CallAdd 'a | CallGet | CallDone 'a | CallLen
  | CallShutDown | CallShutDownWithDrain | CallShuttingDown

fun step :: "'a call \<Rightarrow> 'a Type \<Rightarrow> 'a Type" where
  "step (CallAdd item) q = Add item q"
| "step CallGet q = snd (Get q)"
| "step (CallDone item) q = Done item q"
| "step CallLen q = q"
| "step CallShutDown q = ShutDown q"
| "step CallShutDownWithDrain q = ShutDownWithDrain q"
| "step CallShuttingDown q = q"

fun run :: "'a call list \<Rightarrow> 'a Type \<Rightarrow> 'a Type" where
  "run [] q = q"
| "run (c # cs) q = run cs (step c q)"

text \<open>
  The invariant the struct's comment states: every element of \<open>queue\<close> is in \<open>dirty\<close>
  and not in \<open>processing\<close>; and no element occurs twice.
\<close>

definition queue_inv :: "'a Type \<Rightarrow> bool" where
  "queue_inv q =
     (set (queue q) \<subseteq> dirty q \<and> set (queue q) \<inter> processing q = {} \<and> distinct (queue q))"

text \<open>
  The usage contract of \<open>Done\<close> (``You must call Done with item when you have finished
  processing it''): a sequence of calls keeps it when every \<open>Done\<close> is for an item that
  is in \<open>processing\<close> at that moment.
\<close>

fun done_checked_out :: "'a call list \<Rightarrow> 'a Type \<Rightarrow> bool" where
  "done_checked_out [] q = True"
| "done_checked_out (CallDone item # cs) q =
     (item \<in> processing q \<and> done_checked_out cs (step (CallDone item) q))"
| "done_checked_out (c # cs) q = done_checked_out cs (step c q)"

text \<open>
  \<open>added_live item cs q\<close>: running \<open>cs\<close> from \<open>q\<close>, some \<open>Add item\<close> is called
  at a moment when the queue is not shutting down.
\<close>

fun added_live :: "'a \<Rightarrow> 'a call list \<Rightarrow> 'a Type \<Rightarrow> bool" where
  "added_live item [] q = False"
| "added_live item (c # cs) q =
     ((c = CallAdd item \<and> \<not> shuttingDown q) \<or> added_live item cs (step c q))"

section \<open>The shared informer factory (informers: \<open>sharedInformerFactory\<close>)\<close>

text \<open>
  The struct keeps the registry \<open>informers\<close> (a Go map from \<open>reflect.Type\<close> to
  \<open>cache.SharedInformer\<close>), the map \<open>staredInformers\<close> of start flags, the wait
  group \<open>wg\<close> and the flag \<open>shuttingDown\<close> (here \<open>factoryShuttingDown\<close>, the
  queue has a field of the same name). The \<open>client\<close> field is read by no method.
  Both maps are allocated maps; a key that is absent from \<open>staredInformers\<close> reads as
  \<open>false\<close>. An informer is an opaque value of type \<open>'inf\<close>; a \<open>nil\<close> interface
  value is \<open>None\<close>.

  \<open>Start\<close>, \<open>Shutdown\<close> and \<open>InformerFor\<close> do their bookkeeping under the factory's
  lock, so each is one atomic step. The goroutines that \<open>Start\<close> launches are recorded
  in \<open>launched\<close>, one entry per \<open>go\<close> statement, with the registry key of the informer
  whose \<open>Run\<close> it calls; \<open>wg\<close> counts them (\<open>wg.Add(1)\<close>).
\<close>

record ('ty, 'inf) sharedInformerFactory =
  informers :: "'ty \<rightharpoonup> 'inf"
  staredInformers :: "'ty \<rightharpoonup> bool"
  wg :: nat
  factoryShuttingDown :: bool
  launched :: "('ty \<times> 'inf) list"

definition started :: "('ty, 'inf) sharedInformerFactory \<Rightarrow> 'ty \<Rightarrow> bool" where
  "started f informerType = (staredInformers f informerType = Some True)"

text \<open>
  The body of the loop of \<open>Start\<close> for one key of the registry: when the key is not
  marked started, count the goroutine, launch it, and mark the key.
\<close>

definition start_one ::
  "'ty \<Rightarrow> ('ty, 'inf) sharedInformerFactory \<Rightarrow> ('ty, 'inf) sharedInformerFactory" where
  "start_one informerType f =
     (case informers f informerType of
        None \<Rightarrow> f
      | Some informer \<Rightarrow>
          if \<not> started f informerType
          then f\<lparr>wg := wg f + 1,
                 launched := launched f @ [(informerType, informer)],
                 staredInformers := (staredInformers f)(informerType \<mapsto> True)\<rparr>
          else f)"

text \<open>
  \<open>Start\<close>: nothing when shutting down; otherwise the loop over the registry. Go
  visits the keys of a map in an order of its choosing, each key once: \<open>ks\<close> is that
  order (\<open>range_order\<close> says that it is one). The stop channel is only handed on to
  \<open>Run\<close> and is left out.
\<close>

definition range_order :: "'ty list \<Rightarrow> ('ty \<rightharpoonup> 'inf) \<Rightarrow> bool" where
  "range_order ks m = (distinct ks \<and> set ks = dom m)"

definition Start ::
  "'ty list \<Rightarrow> ('ty, 'inf) sharedInformerFactory \<Rightarrow> ('ty, 'inf) sharedInformerFactory" where
  "Start ks f = (if factoryShuttingDown f then f else fold start_one ks f)"

text \<open>
  \<open>Shutdown\<close> sets the flag and then waits for the wait group, which changes no field
  of the factory.
\<close>

definition Shutdown ::
  "('ty, 'inf) sharedInformerFactory \<Rightarrow> ('ty, 'inf) sharedInformerFactory" where
  "Shutdown f = f\<lparr>factoryShuttingDown := True\<rparr>"

text \<open>\<open>InformerFor\<close>: the body is \<open>return nil\<close>; no field is read or written.\<close>

definition InformerFor ::
  "('ty, 'inf) sharedInformerFactory \<Rightarrow> 'obj \<Rightarrow> 'inf option \<times> ('ty, 'inf) sharedInformerFactory" where
  "InformerFor f obj = (None, f)"

text \<open>The number of goroutines launched so far for a registry key.\<close>

definition launches :: "('ty, 'inf) sharedInformerFactory \<Rightarrow> 'ty \<Rightarrow> nat" where
  "launches f informerType = length (filter (\<lambda>e. fst e = informerType) (launched f))"

text \<open>
  A factory's log agrees with its flags when every registered informer that is marked
  started has been launched once and every other one not at all.
\<close>

definition launched_as_flagged :: "('ty, 'inf) sharedInformerFactory \<Rightarrow> bool" where
  "launched_as_flagged f =
     (\<forall>t \<in> dom (informers f). launches f t = (if started f t then 1 else 0))"

text \<open>
  The log holds only what the registry holds: each goroutine runs the informer that is
  registered under the key it was launched for.
\<close>

definition log_of_registry :: "('ty, 'inf) sharedInformerFactory \<Rightarrow> bool" where
  "log_of_registry f = (\<forall>e \<in> set (launched f). informers f (fst e) = Some (snd e))"

subsection \<open>Sequences of calls on a factory\<close>

text \<open>
  The calls of the \<open>SharedInformerFactory\<close> interface, as data; a \<open>Start\<close> call
  comes with the order in which its loop visits the registry. \<open>orders_ok\<close> says that
  each of these orders is one of the given registry. \<open>start_live cs f\<close>: running
  \<open>cs\<close> from \<open>f\<close>, some \<open>Start\<close> is called at a moment when the factory is not
  shutting down.
\<close>

datatype ('ty, 'obj) factory_call = FStart "'ty list" | FShutdown | FInformerFor 'obj

fun factory_step ::
  "('ty, 'obj) factory_call \<Rightarrow> ('ty, 'inf) sharedInformerFactory \<Rightarrow>
   ('ty, 'inf) sharedInformerFactory" where
  "factory_step (FStart ks) f = Start ks f"
| "factory_step FShutdown f = Shutdown f"
| "factory_step (FInformerFor obj) f = snd (InformerFor f obj)"

fun factory_run ::
  "('ty, 'obj) factory_call list \<Rightarrow> ('ty, 'inf) sharedInformerFactory \<Rightarrow>
   ('ty, 'inf) sharedInformerFactory" where
  "factory_run [] f = f"
| "factory_run (c # cs) f = factory_run cs (factory_step c f)"

fun orders_ok :: "('ty, 'obj) factory_call list \<Rightarrow> ('ty \<rightharpoonup> 'inf) \<Rightarrow> bool" where
  "orders_ok [] m = True"
| "orders_ok (FStart ks # cs) m = (range_order ks m \<and> orders_ok cs m)"
| "orders_ok (c # cs) m = orders_ok cs m"

fun is_start :: "('ty, 'obj) factory_call \<Rightarrow> bool" where
  "is_start (FStart ks) = True"
| "is_start c = False"

fun start_live ::
  "('ty, 'obj) factory_call list \<Rightarrow> ('ty, 'inf) sharedInformerFactory \<Rightarrow> bool" where
  "start_live [] f = False"
| "start_live (c # cs) f =
     ((is_start c \<and> \<not> factoryShuttingDown f) \<or> start_live cs (factory_step c f))"

section \<open>Rate limiters (util/workqueue: \<open>default_rate_limiters.go\<close>)\<close>

text \<open>
  A \<open>time.Duration\<close> is an \<open>int64\<close> count of nanoseconds and the failure counters
  are Go \<open>int\<close>s (64 bits wide on the platforms this code targets). Both are values of
  type \<open>int\<close> here; \<open>wrap64\<close> is what an \<open>int64\<close> addition keeps of its result.
\<close>

definition wrap64 :: "int \<Rightarrow> int" where
  "wrap64 x = (x + 2 ^ 63) mod 2 ^ 64 - 2 ^ 63"

definition second :: int where
  "second = 1000000000"

definition millisecond :: int where
  "millisecond = 1000000"

subsection \<open>The \<open>float64\<close> arithmetic of the exponential limiter\<close>

text \<open>
  \<open>ItemExponentialFailureRateLimiter.When\<close> computes in \<open>float64\<close>. The values that
  occur there are the conversion of an \<open>int64\<close>, a power of two, their product, and the
  special values: \<open>Fin q\<close> is the finite \<open>float64\<close> of value \<open>q\<close>.

  \<open>round53\<close> is the conversion \<open>float64(i)\<close> of an integer: a \<open>float64\<close> has 53
  significant bits, and an integer that needs more is rounded to the nearest integer that
  fits, a tie going to the one whose last kept bit is 0.
\<close>

datatype f64 = Fin rat | PosInf | NegInf | NaN

definition round53 :: "int \<Rightarrow> int" where
  "round53 i =
     (let a = \<bar>i\<bar>; k = bitlen a - 53 in
      if k \<le> 0 then i
      else
        let q = 2 ^ nat k; lo = a mod q; t = a - lo;
            up = (q < 2 * lo \<or> (q = 2 * lo \<and> odd (t div q)))
        in sgn i * (if up then t + q else t))"

definition f64_of_int :: "int \<Rightarrow> f64" where
  "f64_of_int i = Fin (of_int (round53 i))"

text \<open>
  \<open>math.Pow(2, float64(e))\<close> for an integer \<open>e\<close>: the power itself while it is a
  \<open>float64\<close> (from \<open>2^-1074\<close> to \<open>2^1023\<close>), \<open>+Inf\<close> above, zero below. The
  conversion \<open>float64(e)\<close> rounds only when \<open>e\<close> has more than 53 bits, far inside
  the two outer cases.
\<close>

definition pow2 :: "int \<Rightarrow> f64" where
  "pow2 e =
     (if 1024 \<le> e then PosInf
      else if e < - 1074 then Fin 0
      else if 0 \<le> e then Fin (2 ^ nat e)
      else Fin (1 / 2 ^ nat (- e)))"

text \<open>
  The product. Two finite factors give the exact product when it is below \<open>2^1024\<close> in
  magnitude and an infinity otherwise: the second factor is a power of two wherever the
  product is taken below, so the 53 bits of the first are kept as they are. (A product
  below \<open>2^-1022\<close> in magnitude is rounded by the hardware to a multiple of
  \<open>2^-1074\<close>; it stays below 1 in magnitude, which is all that the comparison and the
  conversion that follow see of it.) The other cases are those of IEEE 754.
\<close>

fun f64_mul :: "f64 \<Rightarrow> f64 \<Rightarrow> f64" where
  "f64_mul (Fin a) (Fin b) =
     (if 2 ^ 1024 \<le> a * b then PosInf
      else if a * b \<le> - (2 ^ 1024) then NegInf
      else Fin (a * b))"
| "f64_mul NaN y = NaN"
| "f64_mul x NaN = NaN"
| "f64_mul (Fin a) PosInf = (if a = 0 then NaN else if 0 < a then PosInf else NegInf)"
| "f64_mul (Fin a) NegInf = (if a = 0 then NaN else if 0 < a then NegInf else PosInf)"
| "f64_mul PosInf (Fin b) = (if b = 0 then NaN else if 0 < b then PosInf else NegInf)"
| "f64_mul NegInf (Fin b) = (if b = 0 then NaN else if 0 < b then NegInf else PosInf)"
| "f64_mul PosInf PosInf = PosInf"
| "f64_mul PosInf NegInf = NegInf"
| "f64_mul NegInf PosInf = NegInf"
| "f64_mul NegInf NegInf = PosInf"

text \<open>
  \<open>backoff > math.MaxInt64\<close>: the constant becomes the \<open>float64\<close> nearest to
  \<open>2^63 - 1\<close>, which is \<open>2^63\<close>. A comparison with \<open>NaN\<close> is false.
\<close>

definition gt_MaxInt64 :: "f64 \<Rightarrow> bool" where
  "gt_MaxInt64 x = (case x of Fin q \<Rightarrow> 2 ^ 63 < q | PosInf \<Rightarrow> True | NegInf \<Rightarrow> False | NaN \<Rightarrow> False)"

text \<open>
  The conversion \<open>time.Duration(backoff)\<close> of a \<open>float64\<close> to \<open>int64\<close> drops the
  fraction. For a value that \<open>int64\<close> cannot hold (too large, an infinity, \<open>NaN\<close>) the
  Go specification leaves the result to the implementation: \<open>conv\<close> is what the
  platform at hand returns in that case (on amd64, \<open>-2^63\<close> every time).
\<close>

definition trunc :: "rat \<Rightarrow> int" where
  "trunc q = (if 0 \<le> q then \<lfloor>q\<rfloor> else \<lceil>q\<rceil>)"

definition int64_of_f64 :: "(f64 \<Rightarrow> int) \<Rightarrow> f64 \<Rightarrow> int" where
  "int64_of_f64 conv x =
     (case x of
        Fin q \<Rightarrow> (if - (2 ^ 63) \<le> trunc q \<and> trunc q < 2 ^ 63 then trunc q else conv x)
      | _ \<Rightarrow> conv x)"

definition amd64_conv :: "f64 \<Rightarrow> int" where
  "amd64_conv x = - (2 ^ 63)"

subsection \<open>The limiters\<close>

text \<open>
  The implementations of the \<open>RateLimiter\<close> interface, each with its fields. A map of
  failure counters is a Go map: a key that is absent reads as 0 (\<open>count\<close>), and
  \<open>delete\<close> removes the key.

  \<open>BucketRateLimiter\<close> wraps a token bucket of \<open>golang.org/x/time/rate\<close>, which is
  not part of this code and answers by the wall clock: the limiter carries the delays
  that the bucket's \<open>Reserve().Delay()\<close> returns, call by call, and the number of calls
  made so far.

  These three hold no other limiter and are values; the two limiters that do,
  \<open>MaxOfRateLimiter\<close> and \<open>WithMaxWaitRateLimiter\<close>, follow below.
\<close>

datatype 'k RateLimiter =
    BucketRateLimiter "nat \<Rightarrow> int" nat
  | ItemExponentialFailureRateLimiter "'k \<rightharpoonup> int" int int
  | ItemFastSlowRateLimiter "'k \<rightharpoonup> int" int int int

definition count :: "('k \<rightharpoonup> int) \<Rightarrow> 'k \<Rightarrow> int" where
  "count failures item = (case failures item of None \<Rightarrow> 0 | Some n \<Rightarrow> n)"

text \<open>The constructors, with their arguments in the order of the source.\<close>

definition NewItemExponentialFailureRateLimiter :: "int \<Rightarrow> int \<Rightarrow> 'k RateLimiter" where
  "NewItemExponentialFailureRateLimiter baseDelay maxDelay =
     ItemExponentialFailureRateLimiter Map.empty baseDelay maxDelay"

definition NewItemFastSlowRateLimiter :: "int \<Rightarrow> int \<Rightarrow> int \<Rightarrow> 'k RateLimiter" where
  "NewItemFastSlowRateLimiter fastDelay slowDelay maxFastAttempts =
     ItemFastSlowRateLimiter Map.empty maxFastAttempts fastDelay slowDelay"

text \<open>
  The body of \<open>ItemExponentialFailureRateLimiter.When\<close> after the counter has been
  read into \<open>exp\<close> (here \<open>exponent\<close>).
\<close>

definition exponential_delay :: "(f64 \<Rightarrow> int) \<Rightarrow> int \<Rightarrow> int \<Rightarrow> int \<Rightarrow> int" where
  "exponential_delay conv baseDelay maxDelay exponent =
     (let backoff = f64_mul (f64_of_int baseDelay) (pow2 exponent) in
      if gt_MaxInt64 backoff then maxDelay
      else
        let calculated = int64_of_f64 conv backoff in
        if maxDelay < calculated then maxDelay else calculated)"

text \<open>\<open>When\<close> returns the delay and the limiter after the call.\<close>

fun When :: "(f64 \<Rightarrow> int) \<Rightarrow> 'k RateLimiter \<Rightarrow> 'k \<Rightarrow> int \<times> 'k RateLimiter" where
  "When conv (BucketRateLimiter delays n) item = (delays n, BucketRateLimiter delays (Suc n))"
| "When conv (ItemExponentialFailureRateLimiter failures baseDelay maxDelay) item =
     (exponential_delay conv baseDelay maxDelay (count failures item),
      ItemExponentialFailureRateLimiter
        (failures(item \<mapsto> wrap64 (count failures item + 1))) baseDelay maxDelay)"
| "When conv (ItemFastSlowRateLimiter failures maxFastAttempts fastDelay slowDelay) item =
     (if wrap64 (count failures item + 1) \<le> maxFastAttempts then fastDelay else slowDelay,
      ItemFastSlowRateLimiter
        (failures(item \<mapsto> wrap64 (count failures item + 1))) maxFastAttempts fastDelay slowDelay)"

fun NumRequeues :: "'k RateLimiter \<Rightarrow> 'k \<Rightarrow> int" where
  "NumRequeues (BucketRateLimiter delays n) item = 0"
| "NumRequeues (ItemExponentialFailureRateLimiter failures baseDelay maxDelay) item =
     count failures item"
| "NumRequeues (ItemFastSlowRateLimiter failures maxFastAttempts fastDelay slowDelay) item =
     count failures item"

fun Forget :: "'k RateLimiter \<Rightarrow> 'k \<Rightarrow> 'k RateLimiter" where
  "Forget (BucketRateLimiter delays n) item = BucketRateLimiter delays n"
| "Forget (ItemExponentialFailureRateLimiter failures baseDelay maxDelay) item =
     ItemExponentialFailureRateLimiter (failures(item := None)) baseDelay maxDelay"
| "Forget (ItemFastSlowRateLimiter failures maxFastAttempts fastDelay slowDelay) item =
     ItemFastSlowRateLimiter (failures(item := None)) maxFastAttempts fastDelay slowDelay"

text \<open>
  The calls a client makes on one limiter, and the delay that a \<open>When\<close> call for
  \<open>item\<close> returns after a sequence of earlier calls.
\<close>

datatype 'k limiter_call = CallWhen 'k | CallForget 'k | CallNumRequeues 'k

fun limiter_step :: "(f64 \<Rightarrow> int) \<Rightarrow> 'k limiter_call \<Rightarrow> 'k RateLimiter \<Rightarrow> 'k RateLimiter" where
  "limiter_step conv (CallWhen item) r = snd (When conv r item)"
| "limiter_step conv (CallForget item) r = Forget r item"
| "limiter_step conv (CallNumRequeues item) r = r"

fun limiter_run ::
  "(f64 \<Rightarrow> int) \<Rightarrow> 'k limiter_call list \<Rightarrow> 'k RateLimiter \<Rightarrow> 'k RateLimiter" where
  "limiter_run conv [] r = r"
| "limiter_run conv (c # cs) r = limiter_run conv cs (limiter_step conv c r)"

text \<open>The delays that \<open>n\<close> consecutive \<open>When\<close> calls for one item return.\<close>

fun Whens :: "(f64 \<Rightarrow> int) \<Rightarrow> 'k RateLimiter \<Rightarrow> 'k \<Rightarrow> nat \<Rightarrow> int list" where
  "Whens conv r item 0 = []"
| "Whens conv r item (Suc n) = fst (When conv r item) # Whens conv (snd (When conv r item)) item n"

subsection \<open>Limiters that hold other limiters\<close>

text \<open>
  A \<open>MaxOfRateLimiter\<close> holds a slice of \<open>RateLimiter\<close> interface values and a
  \<open>WithMaxWaitRateLimiter\<close> holds one: these are pointers to limiter objects, and one
  object can be held in several places (listed twice in a slice, or held by two
  combinators). The limiter objects therefore live in a heap, the list of all objects
  allocated so far, and a pointer is a position in it. A pointer outside the heap is a
  \<open>nil\<close> interface value, on which a method call panics.

  A method call on a combinator calls the same method on the objects it holds, so the
  calls nest as deep as the combinators do, and a combinator that is reached from itself
  would call without end. The functions on the heap take the number \<open>n\<close> of nested
  calls that are allowed, and return \<open>None\<close> when a call panics or would need more.
\<close>

type_synonym ptr = nat

datatype 'k limiter_node =
    Leaf "'k RateLimiter"
  | MaxOfRateLimiter "ptr list"
  | WithMaxWaitRateLimiter ptr int

type_synonym 'k limiter_heap = "'k limiter_node list"

definition node_at :: "'k limiter_heap \<Rightarrow> ptr \<Rightarrow> 'k limiter_node option" where
  "node_at h p = (if p < length h then Some (h ! p) else None)"

text \<open>Allocation, and the three ways in which the source makes limiter objects.\<close>

definition allocate :: "'k limiter_node \<Rightarrow> 'k limiter_heap \<Rightarrow> ptr \<times> 'k limiter_heap" where
  "allocate node h = (length h, h @ [node])"

definition NewMaxOfRateLimiter :: "ptr list \<Rightarrow> 'k limiter_heap \<Rightarrow> ptr \<times> 'k limiter_heap" where
  "NewMaxOfRateLimiter limiters h = allocate (MaxOfRateLimiter limiters) h"

definition NewWithMaxWaitRateLimiter ::
  "ptr \<Rightarrow> int \<Rightarrow> 'k limiter_heap \<Rightarrow> ptr \<times> 'k limiter_heap" where
  "NewWithMaxWaitRateLimiter limiter maxDelay h =
     allocate (WithMaxWaitRateLimiter limiter maxDelay) h"

text \<open>
  \<open>DefaultContrllerRateLimiter\<close> (the name is the source's): the maximum of an
  exponential limiter (5ms, 1000s) and a token bucket, whose delays are \<open>delays\<close>.
\<close>

definition DefaultContrllerRateLimiter :: "(nat \<Rightarrow> int) \<Rightarrow> ptr \<times> 'k limiter_heap" where
  "DefaultContrllerRateLimiter delays =
     (case allocate
             (Leaf (NewItemExponentialFailureRateLimiter (5 * millisecond) (1000 * second))) []
      of (e, h1) \<Rightarrow>
        (case allocate (Leaf (BucketRateLimiter delays 0)) h1 of
           (b, h2) \<Rightarrow> NewMaxOfRateLimiter [e, b] h2))"

text \<open>
  \<open>When_at\<close> is \<open>When\<close> called through a pointer; it returns the delay and the heap
  after the call. \<open>When_each\<close> is the loop of \<open>MaxOfRateLimiter.When\<close> over the
  slice, with the running maximum \<open>ret\<close>, which starts at 0: each call works on the
  heap as the calls before it left it.
\<close>

fun When_at ::
    "(f64 \<Rightarrow> int) \<Rightarrow> nat \<Rightarrow> 'k limiter_heap \<Rightarrow> ptr \<Rightarrow> 'k \<Rightarrow> (int \<times> 'k limiter_heap) option"
  and When_each ::
    "(f64 \<Rightarrow> int) \<Rightarrow> nat \<Rightarrow> 'k limiter_heap \<Rightarrow> ptr list \<Rightarrow> 'k \<Rightarrow> int \<Rightarrow>
     (int \<times> 'k limiter_heap) option"
where
  "When_at conv 0 h p item = None"
| "When_at conv (Suc n) h p item =
     (case node_at h p of
        None \<Rightarrow> None
      | Some (Leaf l) \<Rightarrow> (case When conv l item of (delay, l') \<Rightarrow> Some (delay, h[p := Leaf l']))
      | Some (MaxOfRateLimiter limiters) \<Rightarrow> When_each conv n h limiters item 0
      | Some (WithMaxWaitRateLimiter limiter maxDelay) \<Rightarrow>
          (case When_at conv n h limiter item of
             None \<Rightarrow> None
           | Some (delay, h') \<Rightarrow> Some (if maxDelay < delay then maxDelay else delay, h')))"
| "When_each conv n h [] item ret = Some (ret, h)"
| "When_each conv n h (limiter # rest) item ret =
     (case When_at conv n h limiter item of
        None \<Rightarrow> None
      | Some (cur, h') \<Rightarrow> When_each conv n h' rest item (if ret < cur then cur else ret))"

fun NumRequeues_at :: "nat \<Rightarrow> 'k limiter_heap \<Rightarrow> ptr \<Rightarrow> 'k \<Rightarrow> int option"
  and NumRequeues_each :: "nat \<Rightarrow> 'k limiter_heap \<Rightarrow> ptr list \<Rightarrow> 'k \<Rightarrow> int \<Rightarrow> int option"
where
  "NumRequeues_at 0 h p item = None"
| "NumRequeues_at (Suc n) h p item =
     (case node_at h p of
        None \<Rightarrow> None
      | Some (Leaf l) \<Rightarrow> Some (NumRequeues l item)
      | Some (MaxOfRateLimiter limiters) \<Rightarrow> NumRequeues_each n h limiters item 0
      | Some (WithMaxWaitRateLimiter limiter maxDelay) \<Rightarrow> NumRequeues_at n h limiter item)"
| "NumRequeues_each n h [] item ret = Some ret"
| "NumRequeues_each n h (limiter # rest) item ret =
     (case NumRequeues_at n h limiter item of
        None \<Rightarrow> None
      | Some cur \<Rightarrow> NumRequeues_each n h rest item (if ret < cur then cur else ret))"

fun Forget_at :: "nat \<Rightarrow> 'k limiter_heap \<Rightarrow> ptr \<Rightarrow> 'k \<Rightarrow> 'k limiter_heap option"
  and Forget_each :: "nat \<Rightarrow> 'k limiter_heap \<Rightarrow> ptr list \<Rightarrow> 'k \<Rightarrow> 'k limiter_heap option"
where
  "Forget_at 0 h p item = None"
| "Forget_at (Suc n) h p item =
     (case node_at h p of
        None \<Rightarrow> None
      | Some (Leaf l) \<Rightarrow> Some (h[p := Leaf (Forget l item)])
      | Some (MaxOfRateLimiter limiters) \<Rightarrow> Forget_each n h limiters item
      | Some (WithMaxWaitRateLimiter limiter maxDelay) \<Rightarrow> Forget_at n h limiter item)"
| "Forget_each n h [] item = Some h"
| "Forget_each n h (limiter # rest) item =
     (case Forget_at n h limiter item of
        None \<Rightarrow> None
      | Some h' \<Rightarrow> Forget_each n h' rest item)"

text \<open>
  What the children of a combinator answer: the delays that \<open>When\<close> returns when it is
  called on the pointers of a slice one after the other, each call on the heap that the
  calls before it left, with the heap after the last call; and the counts that
  \<open>NumRequeues\<close> returns for them.
\<close>

fun child_results ::
  "(f64 \<Rightarrow> int) \<Rightarrow> nat \<Rightarrow> 'k limiter_heap \<Rightarrow> ptr list \<Rightarrow> 'k \<Rightarrow>
   (int list \<times> 'k limiter_heap) option" where
  "child_results conv n h [] item = Some ([], h)"
| "child_results conv n h (limiter # rest) item =
     (case When_at conv n h limiter item of
        None \<Rightarrow> None
      | Some (delay, h') \<Rightarrow>
          (case child_results conv n h' rest item of
             None \<Rightarrow> None
           | Some (delays, h'') \<Rightarrow> Some (delay # delays, h'')))"


text \<open>
  A heap is built in order when every combinator holds only pointers to objects that
  were allocated before it, as in a heap that the constructors have built. Two heaps have
  the same shape when they hold the same combinators at the same places, and values in
  the same places.
\<close>

definition built_in_order :: "'k limiter_heap \<Rightarrow> bool" where
  "built_in_order h =
     (\<forall>p < length h.
        case h ! p of
          Leaf l \<Rightarrow> True
        | MaxOfRateLimiter limiters \<Rightarrow> (\<forall>q \<in> set limiters. q < p)
        | WithMaxWaitRateLimiter limiter maxDelay \<Rightarrow> limiter < p)"


section \<open>The delaying queue (util/workqueue: \<open>delayingType\<close>)\<close>

subsection \<open>Wait entries and the priority queue\<close>

text \<open>
  A \<open>waitFor\<close> holds the item, the time at which it is to be added and its \<open>index\<close>
  in the priority queue. A \<open>time.Time\<close> is a point on the clock's line, an \<open>int\<close> of
  nanoseconds; \<open>After\<close> and \<open>Before\<close> are the strict order.

  The priority queue is a slice of pointers to \<open>waitFor\<close> objects, and the map
  \<open>waitingEntryByData\<close> holds pointers to the same objects, so the objects live in a
  \<open>store\<close> from pointers to values. An object enters the store when \<open>insert\<close> keeps
  its pointer; \<open>allocated\<close> is the next unused pointer. The slice, the map and the store
  are the local state of the \<open>waitingLoop\<close> goroutine.

  An index out of the slice's range and a \<open>nil\<close> pointer make the Go runtime panic:
  every operation returns an \<open>option\<close>, and \<open>None\<close> is the panic.
\<close>

record 'a waitFor =
  data :: 'a
  readyAt :: int
  index :: int

record 'a waiting =
  store :: "ptr \<rightharpoonup> 'a waitFor"
  waitingForQueue :: "ptr list"
  waitingEntryByData :: "'a \<rightharpoonup> ptr"
  allocated :: ptr

definition no_waiting :: "'a waiting" where
  "no_waiting =
     \<lparr>store = Map.empty, waitingForQueue = [], waitingEntryByData = Map.empty, allocated = 0\<rparr>"

definition pq_Len :: "'a waiting \<Rightarrow> int" where
  "pq_Len w = int (length (waitingForQueue w))"

text \<open>\<open>pq[i]\<close>, the pointer, and \<open>*pq[i]\<close>, the object it points to.\<close>

definition pq_at :: "'a waiting \<Rightarrow> int \<Rightarrow> ptr option" where
  "pq_at w i = (if 0 \<le> i \<and> i < pq_Len w then Some (waitingForQueue w ! nat i) else None)"

definition entry_at :: "'a waiting \<Rightarrow> int \<Rightarrow> 'a waitFor option" where
  "entry_at w i = (case pq_at w i of None \<Rightarrow> None | Some p \<Rightarrow> store w p)"

definition set_index :: "ptr \<Rightarrow> int \<Rightarrow> 'a waiting \<Rightarrow> 'a waiting option" where
  "set_index p i w =
     (case store w p of
        None \<Rightarrow> None
      | Some e \<Rightarrow> Some (w\<lparr>store := (store w)(p \<mapsto> e\<lparr>index := i\<rparr>)\<rparr>))"

definition Less :: "'a waiting \<Rightarrow> int \<Rightarrow> int \<Rightarrow> bool option" where
  "Less w i j =
     (case entry_at w i of
        None \<Rightarrow> None
      | Some a \<Rightarrow> (case entry_at w j of None \<Rightarrow> None | Some b \<Rightarrow> Some (readyAt a < readyAt b)))"

text \<open>
  \<open>Swap\<close>: the two pointers change places; then \<open>pq[i].index = j\<close> and
  \<open>pq[j].index = i\<close>, in this order, on the objects that are at \<open>i\<close> and at \<open>j\<close>
  after the exchange.
\<close>

definition Swap :: "'a waiting \<Rightarrow> int \<Rightarrow> int \<Rightarrow> 'a waiting option" where
  "Swap w i j =
     (case pq_at w i of
        None \<Rightarrow> None
      | Some p_i \<Rightarrow>
          (case pq_at w j of
             None \<Rightarrow> None
           | Some p_j \<Rightarrow>
               (let w1 = w\<lparr>waitingForQueue := (waitingForQueue w)[nat i := p_j, nat j := p_i]\<rparr> in
                case pq_at w1 i of
                  None \<Rightarrow> None
                | Some p \<Rightarrow>
                    (case set_index p j w1 of
                       None \<Rightarrow> None
                     | Some w2 \<Rightarrow>
                         (case pq_at w2 j of None \<Rightarrow> None | Some p' \<Rightarrow> set_index p' i w2)))))"

text \<open>The methods \<open>Push\<close>, \<open>Pop\<close> and \<open>Peek\<close> of the slice.\<close>

definition Push :: "'a waiting \<Rightarrow> ptr \<Rightarrow> 'a waiting option" where
  "Push w item =
     (case set_index item (pq_Len w) w of
        None \<Rightarrow> None
      | Some w1 \<Rightarrow> Some (w1\<lparr>waitingForQueue := waitingForQueue w1 @ [item]\<rparr>))"

definition Pop :: "'a waiting \<Rightarrow> (ptr \<times> 'a waiting) option" where
  "Pop w =
     (case pq_at w (pq_Len w - 1) of
        None \<Rightarrow> None
      | Some item \<Rightarrow>
          (case set_index item (- 1) w of
             None \<Rightarrow> None
           | Some w1 \<Rightarrow> Some (item, w1\<lparr>waitingForQueue := butlast (waitingForQueue w1)\<rparr>)))"

definition Peek :: "'a waiting \<Rightarrow> 'a waitFor option" where
  "Peek w = entry_at w 0"

subsection \<open>The functions of Go's \<open>container/heap\<close>\<close>

text \<open>
  \<open>insert\<close> and the waiting loop call \<open>heap.Push\<close>, \<open>heap.Pop\<close> and \<open>heap.Fix\<close>
  of the Go standard library, which work through the \<open>Len\<close>, \<open>Less\<close>, \<open>Swap\<close>,
  \<open>Push\<close> and \<open>Pop\<close> methods above. Their loops \<open>up\<close> and \<open>down\<close> are the
  library's: \<open>up\<close> exchanges position \<open>j\<close> with its parent \<open>(j - 1) / 2\<close> while it is
  less; \<open>down\<close> exchanges position \<open>i\<close> with its lesser child while that is less, below
  \<open>n\<close>, and reports whether it moved. Go's integer division rounds towards zero
  (\<open>quot2\<close>).
\<close>

definition quot2 :: "int \<Rightarrow> int" where
  "quot2 x = (if 0 \<le> x then x div 2 else - ((- x) div 2))"

function heap_up :: "'a waiting \<Rightarrow> int \<Rightarrow> 'a waiting option" where
  "heap_up w j =
     (let i = quot2 (j - 1) in
      if i = j then Some w
      else
        case Less w j i of
          None \<Rightarrow> None
        | Some lt \<Rightarrow>
            if \<not> lt then Some w
            else (case Swap w i j of None \<Rightarrow> None | Some w' \<Rightarrow> heap_up w' i))"
  by pat_completeness auto
termination
proof (relation "measure (\<lambda>(w, j). nat j)")
  show "wf (measure (\<lambda>(w :: 'a waiting, j). nat j))" by simp
next
  fix w :: "'a waiting" and j i :: int and lt w'
  assume i: "i = quot2 (j - 1)" and ne: "i \<noteq> j" and l: "Less w j i = Some lt"
  from l have "0 \<le> j"
    by (auto simp: Less_def entry_at_def pq_at_def split: option.splits if_splits)
  with i ne have "0 \<le> i \<and> i < j"
    by (auto simp: quot2_def split: if_splits)
  then show "((w', i), (w, j)) \<in> measure (\<lambda>(w, j). nat j)" by simp
qed

declare heap_up.simps [simp del]

text \<open>
  \<open>heap_down_loop\<close> is the loop of \<open>down\<close> and returns the position it ends at;
  \<open>heap_down\<close> is \<open>down\<close>, which returns \<open>i > i0\<close>. Positions are far below the
  range of a Go \<open>int\<close>, so \<open>2 * i + 1\<close> is computed as it stands; the library's test
  \<open>j1 < 0\<close> is kept.
\<close>

function heap_down_loop :: "'a waiting \<Rightarrow> int \<Rightarrow> int \<Rightarrow> (int \<times> 'a waiting) option" where
  "heap_down_loop w i n =
     (let j1 = 2 * i + 1 in
      if n \<le> j1 \<or> j1 < 0 then Some (i, w)
      else
        case (if j1 + 1 < n then Less w (j1 + 1) j1 else Some False) of
          None \<Rightarrow> None
        | Some right \<Rightarrow>
            (let j = (if right then j1 + 1 else j1) in
             case Less w j i of
               None \<Rightarrow> None
             | Some lt \<Rightarrow>
                 if \<not> lt then Some (i, w)
                 else (case Swap w i j of None \<Rightarrow> None | Some w' \<Rightarrow> heap_down_loop w' j n)))"
  by pat_completeness auto
termination
proof (relation "measure (\<lambda>(w, i, n). nat (n - i))")
  show "wf (measure (\<lambda>(w :: 'a waiting, i, n). nat (n - i)))" by simp
next
  fix w :: "'a waiting" and i n j1 :: int and right j lt w'
  assume j1: "j1 = 2 * i + 1" and r: "\<not> (n \<le> j1 \<or> j1 < 0)"
    and rt: "(if j1 + 1 < n then Less w (j1 + 1) j1 else Some False) = Some right"
    and j: "j = (if right then j1 + 1 else j1)"
  from rt have "right \<longrightarrow> j1 + 1 < n" by (auto split: if_splits)
  with j1 r j have "i < j \<and> j < n" by auto
  then show "((w', j, n), (w, i, n)) \<in> measure (\<lambda>(w, i, n). nat (n - i))" by simp
qed

declare heap_down_loop.simps [simp del]


definition heap_down :: "'a waiting \<Rightarrow> int \<Rightarrow> int \<Rightarrow> (bool \<times> 'a waiting) option" where
  "heap_down w i0 n =
     (case heap_down_loop w i0 n of None \<Rightarrow> None | Some (i, w') \<Rightarrow> Some (i0 < i, w'))"

text \<open>\<open>heap.Push\<close>, \<open>heap.Pop\<close> (which returns the pointer removed) and \<open>heap.Fix\<close>.\<close>

definition heap_Push :: "'a waiting \<Rightarrow> ptr \<Rightarrow> 'a waiting option" where
  "heap_Push w x = (case Push w x of None \<Rightarrow> None | Some w1 \<Rightarrow> heap_up w1 (pq_Len w1 - 1))"

definition heap_Pop :: "'a waiting \<Rightarrow> (ptr \<times> 'a waiting) option" where
  "heap_Pop w =
     (let n = pq_Len w - 1 in
      case Swap w 0 n of
        None \<Rightarrow> None
      | Some w1 \<Rightarrow> (case heap_down w1 0 n of None \<Rightarrow> None | Some (moved, w2) \<Rightarrow> Pop w2))"

definition heap_Fix :: "'a waiting \<Rightarrow> int \<Rightarrow> 'a waiting option" where
  "heap_Fix w i =
     (case heap_down w i (pq_Len w) of
        None \<Rightarrow> None
      | Some (moved, w1) \<Rightarrow> if \<not> moved then heap_up w1 i else Some w1)"

subsection \<open>\<open>insert\<close> and the waiting loop\<close>

text \<open>
  \<open>insert\<close> (here \<open>insert_entry\<close>): when the item has an entry, lower that entry's
  \<open>readyAt\<close> if the new time is earlier and call \<open>heap.Fix\<close> at the entry's
  \<open>index\<close>; otherwise push the new entry and record it in the map.
\<close>

definition insert_entry :: "'a waiting \<Rightarrow> 'a waitFor \<Rightarrow> 'a waiting option" where
  "insert_entry w entry =
     (case waitingEntryByData w (data entry) of
        Some p \<Rightarrow>
          (case store w p of
             None \<Rightarrow> None
           | Some existing \<Rightarrow>
               if readyAt entry < readyAt existing
               then heap_Fix
                      (w\<lparr>store := (store w)(p \<mapsto> existing\<lparr>readyAt := readyAt entry\<rparr>)\<rparr>)
                      (index existing)
               else Some w)
      | None \<Rightarrow>
          (let p = allocated w;
               w1 = w\<lparr>store := (store w)(p \<mapsto> entry), allocated := Suc p\<rparr>
           in case heap_Push w1 p of
                None \<Rightarrow> None
              | Some w2 \<Rightarrow>
                  Some (w2\<lparr>waitingEntryByData := (waitingEntryByData w2)(data entry \<mapsto> p)\<rparr>)))"

subsection \<open>The time at which an item is scheduled\<close>

text \<open>
  \<open>scheduled w item\<close> is the \<open>readyAt\<close> of the entry that the map holds for
  \<open>item\<close>, if it holds one. \<open>entries_wf\<close> says that the map is as \<open>insert\<close> builds
  it: the entry recorded for an item is an allocated object that carries that item.
  \<open>same_times\<close> relates two states that differ at most in the order of the slice and in
  the \<open>index\<close> fields.
\<close>

definition scheduled :: "'a waiting \<Rightarrow> 'a \<Rightarrow> int option" where
  "scheduled w item =
     (case waitingEntryByData w item of None \<Rightarrow> None | Some p \<Rightarrow> map_option readyAt (store w p))"

definition entries_wf :: "'a waiting \<Rightarrow> bool" where
  "entries_wf w =
     (\<forall>item p. waitingEntryByData w item = Some p \<longrightarrow>
        p < allocated w \<and> (\<exists>e. store w p = Some e \<and> data e = item))"

definition same_times :: "'a waiting \<Rightarrow> 'a waiting \<Rightarrow> bool" where
  "same_times w w' =
     (waitingEntryByData w' = waitingEntryByData w \<and> allocated w' = allocated w \<and>
      (\<forall>p. map_option (\<lambda>e. (data e, readyAt e)) (store w' p) =
           map_option (\<lambda>e. (data e, readyAt e)) (store w p)))"

text \<open>
  The loop ``Add ready entries'' of \<open>waitingLoop\<close>: while the queue is not empty and
  its first entry is not after \<open>now\<close>, pop it, \<open>Add\<close> its item to the work queue and
  delete it from the map.
\<close>

function addReadyEntries ::
  "int \<Rightarrow> 'a waiting \<Rightarrow> 'a Type \<Rightarrow> ('a waiting \<times> 'a Type) option" where
  "addReadyEntries now w q =
     (if 0 < pq_Len w then
        (case Peek w of
           None \<Rightarrow> None
         | Some entry \<Rightarrow>
             if now < readyAt entry then Some (w, q)
             else
               (case heap_Pop w of
                  None \<Rightarrow> None
                | Some (p, w1) \<Rightarrow>
                    (case store w1 p of
                       None \<Rightarrow> None
                     | Some popped \<Rightarrow>
                         addReadyEntries now
                           (w1\<lparr>waitingEntryByData := (waitingEntryByData w1)(data popped := None)\<rparr>)
                           (Add (data popped) q))))
      else Some (w, q))"
  by pat_completeness auto
termination
proof (relation "measure (\<lambda>(now, w, q). length (waitingForQueue w))")
  show "wf (measure (\<lambda>(now :: int, w :: 'a waiting, q :: 'a Type). length (waitingForQueue w)))"
    by simp
next
  fix now :: int and w w1 :: "'a waiting" and q :: "'a Type" and entry popped p x
  assume len: "0 < pq_Len w" and pop: "heap_Pop w = Some x" and x: "(p, w1) = x"
  have set_index_len: "\<And>p i (u :: 'a waiting) u'. set_index p i u = Some u' \<Longrightarrow>
      length (waitingForQueue u') = length (waitingForQueue u)"
    by (auto simp: set_index_def split: option.splits)
  have Swap_len: "\<And>(u :: 'a waiting) i j u'. Swap u i j = Some u' \<Longrightarrow>
      length (waitingForQueue u') = length (waitingForQueue u)"
    by (auto simp: Swap_def Let_def split: option.splits dest!: set_index_len)
  have down_len: "\<And>(u :: 'a waiting) i n r. heap_down_loop u i n = Some r \<Longrightarrow>
      length (waitingForQueue (snd r)) = length (waitingForQueue u)"
  proof -
    fix u :: "'a waiting" and i n r
    show "heap_down_loop u i n = Some r \<Longrightarrow>
      length (waitingForQueue (snd r)) = length (waitingForQueue u)"
    proof (induction u i n arbitrary: r rule: heap_down_loop.induct)
      case (1 w i n)
      show ?case
        using "1.prems" "1.IH" Swap_len
        by (subst (asm) heap_down_loop.simps)
          (auto simp: Let_def split: if_splits option.splits)
    qed
  qed
  have Pop_len: "\<And>(u :: 'a waiting) r. Pop u = Some r \<Longrightarrow>
      length (waitingForQueue u) = Suc (length (waitingForQueue (snd r)))"
    by (auto simp: Pop_def pq_at_def pq_Len_def split: option.splits if_splits
        dest!: set_index_len)
  from pop x have "length (waitingForQueue w) = Suc (length (waitingForQueue w1))"
    by (auto simp: heap_Pop_def heap_down_def Let_def split: option.splits
        dest!: Swap_len down_len Pop_len)
  then show "((now, w1\<lparr>waitingEntryByData := (waitingEntryByData w1)(data popped := None)\<rparr>,
          Add (data popped) q), now, w, q)
       \<in> measure (\<lambda>(now, w, q). length (waitingForQueue w))"
    by simp
qed


declare addReadyEntries.simps [simp del]


text \<open>
  The delaying queue embeds the work queue (\<open>Interface\<close>) and adds the stop channel
  (closed or not), the \<open>sync.Once\<close> of \<open>ShutDown\<close>, the heartbeat ticker and the
  buffered channel \<open>waitingForAddCh\<close> of capacity 1000, whose content is the list of
  entries sent and not yet received.
\<close>

record 'a delayingType =
  Interface :: "'a Type"
  stopCh_closed :: bool
  stopOnce_done :: bool
  heartbeat_stopped :: bool
  waitingForAddCh :: "'a waitFor list"

definition newDelayingQueue :: "'a Type \<Rightarrow> 'a delayingType" where
  "newDelayingQueue q =
     \<lparr>Interface = q, stopCh_closed = False, stopOnce_done = False, heartbeat_stopped = False,
      waitingForAddCh = []\<rparr>"

text \<open>\<open>delayingType.ShutDown\<close>: once only, shut the work queue down, close the stop channel and stop the ticker.\<close>

definition delaying_ShutDown :: "'a delayingType \<Rightarrow> 'a delayingType" where
  "delaying_ShutDown d =
     (if stopOnce_done d then d
      else d\<lparr>Interface := ShutDown (Interface d), stopCh_closed := True,
             heartbeat_stopped := True, stopOnce_done := True\<rparr>)"

text \<open>
  \<open>AddAfter\<close>, called when the clock shows \<open>now\<close>: nothing when shutting down; an
  immediate \<open>Add\<close> for a duration that is not positive; otherwise the \<open>select\<close>, which
  returns when the stop channel is closed, sends the new entry when the channel has room,
  and otherwise waits (\<open>Waits\<close>, with the state as it was) for one of the two.
\<close>

datatype 's outcome = Returns 's | Waits 's

definition AddAfter :: "'a delayingType \<Rightarrow> 'a \<Rightarrow> int \<Rightarrow> int \<Rightarrow> 'a delayingType outcome" where
  "AddAfter d item duration now =
     (if ShuttingDown (Interface d) then Returns d
      else if duration \<le> 0 then Returns (d\<lparr>Interface := Add item (Interface d)\<rparr>)
      else if stopCh_closed d then Returns d
      else if length (waitingForAddCh d) < 1000
      then Returns (d\<lparr>waitingForAddCh :=
                       waitingForAddCh d @ [\<lparr>data = item, readyAt = now + duration, index = 0\<rparr>]\<rparr>)
      else Waits d)"

text \<open>
  What the loop does with an entry it receives when the clock shows \<open>now\<close>, and with
  all the entries that are in the channel (the first receive and the draining loop after
  it).
\<close>

definition receive ::
  "int \<Rightarrow> 'a waitFor \<Rightarrow> 'a waiting \<times> 'a Type \<Rightarrow> ('a waiting \<times> 'a Type) option" where
  "receive now waitEntry s =
     (case s of
        (w, q) \<Rightarrow>
          if now < readyAt waitEntry
          then (case insert_entry w waitEntry of None \<Rightarrow> None | Some w' \<Rightarrow> Some (w', q))
          else Some (w, Add (data waitEntry) q))"

fun receive_all ::
  "int \<Rightarrow> 'a waitFor list \<Rightarrow> 'a waiting \<times> 'a Type \<Rightarrow> ('a waiting \<times> 'a Type) option" where
  "receive_all now [] s = Some s"
| "receive_all now (waitEntry # rest) s =
     (case receive now waitEntry s of None \<Rightarrow> None | Some s' \<Rightarrow> receive_all now rest s')"

text \<open>
  One iteration of the \<open>for\<close> loop of \<open>waitingLoop\<close>: leave when the work queue is
  shutting down; add the ready entries, the clock showing \<open>now\<close>; then the
  \<open>select\<close> wakes for one of four reasons, \<open>later\<close> being what the clock shows
  then. The timers only decide when the loop wakes and are not part of the state.
\<close>

datatype wake = WakeStop | WakeHeartbeat | WakeTimer | WakeRequest

datatype 's loop_result = Panics | Exits 's | Continues 's

definition waitingLoop_iteration ::
  "int \<Rightarrow> wake \<Rightarrow> int \<Rightarrow> 'a waiting \<times> 'a delayingType \<Rightarrow>
   ('a waiting \<times> 'a delayingType) loop_result" where
  "waitingLoop_iteration now wk later s =
     (case s of
        (w, d) \<Rightarrow>
          if ShuttingDown (Interface d) then Exits (w, d)
          else
            (case addReadyEntries now w (Interface d) of
               None \<Rightarrow> Panics
             | Some (w1, q1) \<Rightarrow>
                 (case wk of
                    WakeStop \<Rightarrow> Exits (w1, d\<lparr>Interface := q1\<rparr>)
                  | WakeHeartbeat \<Rightarrow> Continues (w1, d\<lparr>Interface := q1\<rparr>)
                  | WakeTimer \<Rightarrow> Continues (w1, d\<lparr>Interface := q1\<rparr>)
                  | WakeRequest \<Rightarrow>
                      (case receive_all later (waitingForAddCh d) (w1, q1) of
                         None \<Rightarrow> Panics
                       | Some (w2, q2) \<Rightarrow>
                           Continues (w2, d\<lparr>Interface := q2, waitingForAddCh := []\<rparr>)))))"

section \<open>The rate-limited queue (util/workqueue: \<open>rateLimitingType\<close>)\<close>

text \<open>
  The struct embeds a delaying queue and holds a rate limiter, which is an interface
  value: a pointer to a limiter object. \<open>limiter_objects\<close> is the heap in which that
  object and the objects it holds live. The queue's methods \<open>Forget\<close> and
  \<open>NumRequeues\<close> are \<open>Forget_q\<close> and \<open>NumRequeues_q\<close> here, the limiter's methods
  have the plain names. \<open>AddRateLimited\<close> first evaluates the argument
  \<open>q.rateLimiter.When(item)\<close> and then calls \<open>AddAfter\<close>. As for the limiters,
  \<open>n\<close> is the number of nested calls allowed in the limiter, and \<open>None\<close> a call that
  panics or would need more.
\<close>

record 'a rateLimitingType =
  DelayingInterface :: "'a delayingType"
  rateLimiter :: ptr
  limiter_objects :: "'a limiter_heap"

definition AddRateLimited ::
  "(f64 \<Rightarrow> int) \<Rightarrow> nat \<Rightarrow> 'a rateLimitingType \<Rightarrow> 'a \<Rightarrow> int \<Rightarrow>
   'a rateLimitingType outcome option" where
  "AddRateLimited conv n q item now =
     (case When_at conv n (limiter_objects q) (rateLimiter q) item of
        None \<Rightarrow> None
      | Some (duration, h) \<Rightarrow>
          Some (case AddAfter (DelayingInterface q) item duration now of
                  Returns d \<Rightarrow>
                    Returns \<lparr>DelayingInterface = d, rateLimiter = rateLimiter q,
                             limiter_objects = h\<rparr>
                | Waits d \<Rightarrow>
                    Waits \<lparr>DelayingInterface = d, rateLimiter = rateLimiter q,
                           limiter_objects = h\<rparr>))"

definition NumRequeues_q :: "nat \<Rightarrow> 'a rateLimitingType \<Rightarrow> 'a \<Rightarrow> int option" where
  "NumRequeues_q n q item = NumRequeues_at n (limiter_objects q) (rateLimiter q) item"

definition Forget_q :: "nat \<Rightarrow> 'a rateLimitingType \<Rightarrow> 'a \<Rightarrow> 'a rateLimitingType option" where
  "Forget_q n q item =
     (case Forget_at n (limiter_objects q) (rateLimiter q) item of
        None \<Rightarrow> None
      | Some h \<Rightarrow> Some (q\<lparr>limiter_objects := h\<rparr>))"

section \<open>Properties of the work queue\<close>

lemma Add_queue_inv: "queue_inv q \<Longrightarrow> queue_inv (Add item q)"
  by (auto simp: queue_inv_def Add_def)

lemma Get_queue_inv: "queue_inv q \<Longrightarrow> queue_inv (snd (Get q))"
  by (auto simp: queue_inv_def Get_def split: list.splits)

lemma Done_queue_inv: "queue_inv q \<Longrightarrow> item \<in> processing q \<Longrightarrow> queue_inv (Done item q)"
  by (auto simp: queue_inv_def Done_def)

lemma ShutDown_queue_inv: "queue_inv q \<Longrightarrow> queue_inv (ShutDown q)"
  by (simp add: queue_inv_def ShutDown_def shutdown_def setDrain_def)

lemma ShutDownWithDrain_queue_inv: "queue_inv q \<Longrightarrow> queue_inv (ShutDownWithDrain q)"
  by (simp add: queue_inv_def ShutDownWithDrain_def shutdown_def setDrain_def)

lemma run_queue_inv:
  "queue_inv q \<Longrightarrow> done_checked_out cs q \<Longrightarrow> queue_inv (run cs q)"
proof (induction cs arbitrary: q)
  case Nil
  then show ?case by simp
next
  case (Cons c cs)
  have "queue_inv (step c q) \<and> done_checked_out cs (step c q)"
    using Cons.prems
    by (cases c)
      (simp_all add: Add_queue_inv Get_queue_inv Done_queue_inv ShutDown_queue_inv
        ShutDownWithDrain_queue_inv)
  then show ?case using Cons.IH by simp
qed

lemma newQueue_inv: "queue_inv newQueue"
  by (simp add: queue_inv_def newQueue_def)

text \<open>
  Claim C3, as the code keeps it. From the empty queue, after any sequence of \<open>Add\<close>,
  \<open>Get\<close>, \<open>Done\<close>, \<open>Len\<close>, \<open>ShutDown\<close>, \<open>ShutDownWithDrain\<close> and
  \<open>ShuttingDown\<close> calls in which every \<open>Done\<close> is for an item that is in
  \<open>processing\<close> when it is called: every item of the queue is in \<open>dirty\<close>, none is in
  \<open>processing\<close>, and no item occurs twice in the queue. An item can be in \<open>dirty\<close> and
  in \<open>processing\<close> at once: after \<open>Add k\<close>, \<open>Get\<close>, \<open>Add k\<close> it is.
\<close>

theorem queue_invariant_kept:
  "(done_checked_out cs newQueue \<longrightarrow>
      set (queue (run cs newQueue)) \<subseteq> dirty (run cs newQueue) \<and>
      set (queue (run cs newQueue)) \<inter> processing (run cs newQueue) = {} \<and>
      distinct (queue (run cs newQueue))) \<and>
   done_checked_out [CallAdd k, CallGet, CallAdd k] newQueue \<and>
   k \<in> dirty (run [CallAdd k, CallGet, CallAdd k] newQueue) \<and>
   k \<in> processing (run [CallAdd k, CallGet, CallAdd k] newQueue)"
proof -
  have "done_checked_out cs newQueue \<Longrightarrow> queue_inv (run cs (newQueue :: 'a Type))"
    using run_queue_inv [OF newQueue_inv] .
  moreover have "k \<in> dirty (run [CallAdd k, CallGet, CallAdd k] newQueue) \<and>
      k \<in> processing (run [CallAdd k, CallGet, CallAdd k] newQueue)"
    by (simp add: newQueue_def Add_def Get_def)
  ultimately show ?thesis
    by (simp add: queue_inv_def)
qed

text \<open>The theorem at a sequence of six calls on two items.\<close>

theorem queue_invariant_kept_witness:
  "done_checked_out [CallAdd (1::nat), CallGet, CallAdd 1, CallAdd 2, CallDone 1, CallShutDown] newQueue \<and>
   queue (run [CallAdd (1::nat), CallGet, CallAdd 1, CallAdd 2, CallDone 1, CallShutDown] newQueue) = [2, 1] \<and>
   set [2, 1::nat] \<subseteq> dirty (run [CallAdd (1::nat), CallGet, CallAdd 1, CallAdd 2, CallDone 1, CallShutDown] newQueue) \<and>
   set [2, 1::nat] \<inter> processing (run [CallAdd (1::nat), CallGet, CallAdd 1, CallAdd 2, CallDone 1, CallShutDown] newQueue) = {} \<and>
   distinct [2, 1::nat]"
  using queue_invariant_kept [of "[CallAdd (1::nat), CallGet, CallAdd 1, CallAdd 2, CallDone 1, CallShutDown]" 1]
  by (simp add: newQueue_def Add_def Get_def Done_def ShutDown_def shutdown_def setDrain_def)

text \<open>
  Without the condition on \<open>Done\<close> the invariant fails: \<open>Add 1\<close> and then \<open>Done 1\<close>,
  for an item that no \<open>Get\<close> has returned, appends the dirty item a second time.
\<close>

theorem queue_invariant_counterexample:
  "\<not> distinct (queue (run [CallAdd (1::nat), CallDone 1] newQueue))"
  by (simp add: newQueue_def Add_def Done_def)

lemma step_shuttingDown: "shuttingDown q \<Longrightarrow> shuttingDown (step c q)"
  by (cases c)
    (auto simp: Add_def Get_def Done_def ShutDown_def ShutDownWithDrain_def shutdown_def
      setDrain_def split: list.splits)

lemma run_shuttingDown: "shuttingDown q \<Longrightarrow> shuttingDown (run cs q)"
  by (induction cs arbitrary: q) (simp_all add: step_shuttingDown)

lemma ShutDown_shuttingDown: "shuttingDown (ShutDown q)"
  by (simp add: ShutDown_def shutdown_def setDrain_def)

text \<open>
  Claim C9. After \<open>ShutDown\<close>, and whatever calls follow it, \<open>Add\<close> of any item returns
  the state as it was (queue, dirty set, processing set and flags), and \<open>Get\<close> on an
  empty queue returns at once with \<open>shutdown = true\<close> and the state as it was. Neither
  method has a failing branch.
\<close>

theorem after_ShutDown_noop:
  "Add k (run cs (ShutDown q)) = run cs (ShutDown q) \<and>
   (queue (run cs (ShutDown q)) = [] \<longrightarrow>
      Get (run cs (ShutDown q)) = (GetShutDown, run cs (ShutDown q)))"
proof -
  have "shuttingDown (run cs (ShutDown q))"
    by (rule run_shuttingDown [OF ShutDown_shuttingDown])
  then show ?thesis
    by (simp add: Add_def Get_def)
qed

text \<open>The theorem at a queue shut down with one item pending, which a later \<open>Get\<close> takes.\<close>

theorem after_ShutDown_noop_witness:
  "queue (run [CallAdd 7, CallGet] (ShutDown (Add (3::nat) newQueue))) = [] \<and>
   Add 5 (run [CallAdd 7, CallGet] (ShutDown (Add 3 newQueue)))
     = run [CallAdd 7, CallGet] (ShutDown (Add 3 newQueue)) \<and>
   Get (run [CallAdd 7, CallGet] (ShutDown (Add 3 newQueue)))
     = (GetShutDown, run [CallAdd 7, CallGet] (ShutDown (Add 3 newQueue)))"
  using after_ShutDown_noop [of 5 "[CallAdd 7, CallGet]" "Add (3::nat) newQueue"]
  by (simp add: newQueue_def Add_def Get_def ShutDown_def shutdown_def setDrain_def)



lemma step_keeps_checked_out:
  "k \<in> processing q \<Longrightarrow> k \<notin> set (queue q) \<Longrightarrow> c \<noteq> CallDone k \<Longrightarrow>
   k \<in> processing (step c q) \<and> k \<notin> set (queue (step c q))"
  by (cases c)
    (auto simp: Add_def Get_def Done_def ShutDown_def ShutDownWithDrain_def shutdown_def
      setDrain_def split: list.splits)

lemma step_dirty_checked_out:
  "k \<in> processing q \<Longrightarrow> k \<notin> set (queue q) \<Longrightarrow> c \<noteq> CallDone k \<Longrightarrow>
   (k \<in> dirty (step c q)) = (k \<in> dirty q \<or> (c = CallAdd k \<and> \<not> shuttingDown q))"
  by (cases c)
    (auto simp: Add_def Get_def Done_def ShutDown_def ShutDownWithDrain_def shutdown_def
      setDrain_def split: list.splits)

lemma run_checked_out:
  "k \<in> processing q \<Longrightarrow> k \<notin> set (queue q) \<Longrightarrow> CallDone k \<notin> set cs \<Longrightarrow>
   k \<in> processing (run cs q) \<and> k \<notin> set (queue (run cs q)) \<and>
   (k \<in> dirty (run cs q)) = (k \<in> dirty q \<or> added_live k cs q)"
proof (induction cs arbitrary: q)
  case Nil
  then show ?case by simp
next
  case (Cons c cs)
  from Cons.prems have c: "c \<noteq> CallDone k" and cs: "CallDone k \<notin> set cs"
    by auto
  note s1 = step_keeps_checked_out [OF Cons.prems(1,2) c]
  note s2 = step_dirty_checked_out [OF Cons.prems(1,2) c]
  from Cons.IH [of "step c q"] s1 cs
  have "k \<in> processing (run cs (step c q)) \<and> k \<notin> set (queue (run cs (step c q))) \<and>
    (k \<in> dirty (run cs (step c q))) = (k \<in> dirty (step c q) \<or> added_live k cs (step c q))"
    by blast
  with s2 show ?case
    by auto
qed

lemma Get_item_checked_out:
  assumes "queue_inv q0" and "Get q0 = (GetItem k, q)"
  shows "k \<in> processing q \<and> k \<notin> set (queue q) \<and> k \<notin> dirty q"
  using assms
  by (auto simp: queue_inv_def Get_def split: list.splits if_splits)

text \<open>
  Claim C2, as the code keeps it. Let \<open>Get\<close> return \<open>k\<close> from a queue that satisfies the
  invariant, and let any calls but \<open>Done k\<close> follow. If among them \<open>Add k\<close> is called at
  least once while the queue is not shutting down, then \<open>Done k\<close> appends \<open>k\<close> to the
  queue and \<open>k\<close> is in the queue exactly once; otherwise \<open>Done k\<close> leaves the queue as
  it is, without \<open>k\<close>.
\<close>

theorem Done_requeues_once:
  assumes "queue_inv q0" and "Get q0 = (GetItem k, q)" and "CallDone k \<notin> set cs"
  shows "(added_live k cs q \<longrightarrow>
            queue (Done k (run cs q)) = queue (run cs q) @ [k] \<and>
            count_list (queue (Done k (run cs q))) k = 1) \<and>
         (\<not> added_live k cs q \<longrightarrow>
            queue (Done k (run cs q)) = queue (run cs q) \<and>
            count_list (queue (Done k (run cs q))) k = 0)"
proof -
  from Get_item_checked_out [OF assms(1,2)]
  have a: "k \<in> processing q" and b: "k \<notin> set (queue q)" and c: "k \<notin> dirty q"
    by simp_all
  from run_checked_out [OF a b assms(3)] c
  have d: "k \<notin> set (queue (run cs q))"
    and e: "(k \<in> dirty (run cs q)) = added_live k cs q"
    by simp_all
  from d have f: "count_list (queue (run cs q)) k = 0"
    by (simp add: count_list_0_iff)
  show ?thesis
    using e f by (simp add: Done_def)
qed

text \<open>
  The theorem at two runs after \<open>Add 1\<close>, \<open>Get\<close>: one with three \<open>Add 1\<close> during
  processing, one with none.
\<close>

theorem Done_requeues_once_witness:
  "queue_inv (Add (1::nat) newQueue) \<and>
   Get (Add (1::nat) newQueue) = (GetItem 1, snd (Get (Add 1 newQueue))) \<and>
   CallDone 1 \<notin> set [CallAdd 1, CallAdd 2, CallAdd (1::nat), CallGet, CallAdd 1] \<and>
   added_live 1 [CallAdd 1, CallAdd 2, CallAdd (1::nat), CallGet, CallAdd 1] (snd (Get (Add 1 newQueue))) \<and>
   queue (run [CallAdd 1, CallAdd 2, CallAdd (1::nat), CallGet, CallAdd 1] (snd (Get (Add 1 newQueue)))) = [] \<and>
   queue (Done 1 (run [CallAdd 1, CallAdd 2, CallAdd (1::nat), CallGet, CallAdd 1] (snd (Get (Add 1 newQueue))))) = [1] \<and>
   \<not> added_live 1 [CallAdd (2::nat)] (snd (Get (Add 1 newQueue))) \<and>
   queue (Done 1 (run [CallAdd (2::nat)] (snd (Get (Add 1 newQueue))))) = [2]"
  using Done_requeues_once [of "Add (1::nat) newQueue" 1 "snd (Get (Add 1 newQueue))"
      "[CallAdd 1, CallAdd 2, CallAdd (1::nat), CallGet, CallAdd 1]"]
    Done_requeues_once [of "Add (1::nat) newQueue" 1 "snd (Get (Add 1 newQueue))"
      "[CallAdd (2::nat)]"]
  by (simp add: queue_inv_def newQueue_def Add_def Get_def Done_def)

text \<open>
  \<open>Add\<close> calls that come after \<open>ShutDown\<close> do not count: item 1 is checked out, the
  queue is shut down, \<open>Add 1\<close> is called twice, and \<open>Done 1\<close> appends nothing.
\<close>

theorem Done_requeues_counterexample:
  "Get (Add (1::nat) newQueue) = (GetItem 1, snd (Get (Add 1 newQueue))) \<and>
   queue (Done 1 (run [CallShutDown, CallAdd 1, CallAdd 1] (snd (Get (Add (1::nat) newQueue)))))
     = queue (run [CallShutDown, CallAdd 1, CallAdd 1] (snd (Get (Add (1::nat) newQueue))))"
  by (simp add: newQueue_def Add_def Get_def Done_def ShutDown_def shutdown_def setDrain_def)

section \<open>Properties of the shared informer factory\<close>

lemma start_one_launches:
  "launches (start_one k f) t =
     launches f t + (if t = k \<and> k \<in> dom (informers f) \<and> \<not> started f k then 1 else 0)"
  by (auto simp: start_one_def launches_def split: option.splits)

lemma start_one_started:
  "started (start_one k f) t = (started f t \<or> (t = k \<and> k \<in> dom (informers f)))"
  by (auto simp: start_one_def started_def split: option.splits)

lemma start_one_informers [simp]: "informers (start_one k f) = informers f"
  by (simp add: start_one_def split: option.splits)

lemma start_one_shutting [simp]: "factoryShuttingDown (start_one k f) = factoryShuttingDown f"
  by (simp add: start_one_def split: option.splits)

lemma fold_start_one_informers [simp]: "informers (fold start_one ks f) = informers f"
  by (induction ks arbitrary: f) simp_all

lemma fold_start_one_shutting [simp]:
  "factoryShuttingDown (fold start_one ks f) = factoryShuttingDown f"
  by (induction ks arbitrary: f) simp_all

lemma fold_start_one_started:
  "started (fold start_one ks f) t = (started f t \<or> (t \<in> set ks \<and> t \<in> dom (informers f)))"
  by (induction ks arbitrary: f) (auto simp: start_one_started)

lemma fold_start_one_launches:
  "distinct ks \<Longrightarrow>
   launches (fold start_one ks f) t =
     launches f t + (if t \<in> set ks \<and> t \<in> dom (informers f) \<and> \<not> started f t then 1 else 0)"
proof (induction ks arbitrary: f)
  case Nil
  then show ?case by simp
next
  case (Cons k ks)
  then have d: "distinct ks" and nk: "k \<notin> set ks" by simp_all
  show ?case
    using Cons.IH [OF d, of "start_one k f"] nk
    by (auto simp: start_one_launches start_one_started)
qed

lemma Start_informers [simp]: "informers (Start ks f) = informers f"
  by (simp add: Start_def)

lemma Start_shutting [simp]: "factoryShuttingDown (Start ks f) = factoryShuttingDown f"
  by (simp add: Start_def)

lemma Start_flagged:
  assumes "range_order ks (informers f)" "launched_as_flagged f" "\<not> factoryShuttingDown f"
  shows "launched_as_flagged (Start ks f) \<and> (\<forall>t \<in> dom (informers f). started (Start ks f) t)"
  using assms
  by (auto simp: launched_as_flagged_def range_order_def Start_def fold_start_one_launches
      fold_start_one_started)

lemma start_one_length:
  "length (launched (start_one k f)) =
     length (launched f) + (if k \<in> dom (informers f) \<and> \<not> started f k then 1 else 0)"
  by (auto simp: start_one_def split: option.splits)

lemma fold_start_one_length:
  "distinct ks \<Longrightarrow>
   length (launched (fold start_one ks f)) =
     length (launched f) + card {t \<in> set ks. t \<in> dom (informers f) \<and> \<not> started f t}"
proof (induction ks arbitrary: f)
  case Nil
  then show ?case by simp
next
  case (Cons k ks)
  then have d: "distinct ks" and nk: "k \<notin> set ks" by simp_all
  let ?A = "{t \<in> set ks. t \<in> dom (informers f) \<and> \<not> started f t}"
  have same: "{t \<in> set ks. t \<in> dom (informers f) \<and> \<not> started (start_one k f) t} = ?A"
    using nk by (auto simp: start_one_started)
  have fin: "finite ?A" by simp
  have notin: "k \<notin> ?A" using nk by simp
  have split: "{t \<in> set (k # ks). t \<in> dom (informers f) \<and> \<not> started f t} =
      (if k \<in> dom (informers f) \<and> \<not> started f k then insert k ?A else ?A)"
    by auto
  have "length (launched (fold start_one (k # ks) f)) =
      length (launched (start_one k f)) + card ?A"
    using Cons.IH [OF d, of "start_one k f"] by (simp add: same)
  moreover have "card {t \<in> set (k # ks). t \<in> dom (informers f) \<and> \<not> started f t} =
      (if k \<in> dom (informers f) \<and> \<not> started f k then 1 else 0) + card ?A"
    unfolding split using fin notin by (simp del: mem_Collect_eq)
  ultimately show ?case
    by (simp only: start_one_length)
qed

lemma start_one_log: "log_of_registry f \<Longrightarrow> log_of_registry (start_one k f)"
  by (auto simp: log_of_registry_def start_one_def split: option.splits)

lemma fold_start_one_log: "log_of_registry f \<Longrightarrow> log_of_registry (fold start_one ks f)"
  by (induction ks arbitrary: f) (simp_all add: start_one_log)

lemma Start_log: "log_of_registry f \<Longrightarrow> log_of_registry (Start ks f)"
  by (simp add: Start_def fold_start_one_log)

lemma count_registered:
  assumes "log_of_registry g" and "informers g t = Some i"
  shows "count_list (launched g) (t, i) = launches g t"
proof -
  have "\<forall>e \<in> set (launched g). (e = (t, i)) = (fst e = t)"
    using assms by (auto simp: log_of_registry_def)
  then have "filter (\<lambda>e. e = (t, i)) (launched g) = filter (\<lambda>e. fst e = t) (launched g)"
    by (intro filter_cong) simp_all
  moreover have "count_list (launched g) (t, i) = length (filter (\<lambda>e. e = (t, i)) (launched g))"
    by (simp add: count_list_eq_length_filter) (metis (mono_tags, lifting) filter_cong)
  ultimately show ?thesis by (simp add: launches_def)
qed

lemma Shutdown_fields [simp]:
  "informers (Shutdown f) = informers f" "launched (Shutdown f) = launched f"
  "started (Shutdown f) t = started f t" "factoryShuttingDown (Shutdown f)"
  by (simp_all add: Shutdown_def started_def)

lemma factory_step_informers [simp]: "informers (factory_step c f) = informers f"
  by (cases c) (simp_all add: InformerFor_def)

lemma factory_run_informers [simp]: "informers (factory_run cs f) = informers f"
  by (induction cs arbitrary: f) simp_all

lemma factory_step_shut: "factoryShuttingDown f \<Longrightarrow> factory_step c f = f"
  by (cases c) (simp_all add: Start_def Shutdown_def InformerFor_def)

lemma factory_run_shut: "factoryShuttingDown f \<Longrightarrow> factory_run cs f = f"
  by (induction cs) (simp_all add: factory_step_shut)

lemma start_live_shut: "factoryShuttingDown f \<Longrightarrow> \<not> start_live cs f"
proof (induction cs)
  case Nil
  then show ?case by simp
next
  case (Cons c cs)
  then show ?case using factory_step_shut [of f c] by simp
qed

lemma factory_step_inv:
  assumes "launched_as_flagged f" "log_of_registry f" "orders_ok (c # cs) (informers f)"
  shows "launched_as_flagged (factory_step c f) \<and> log_of_registry (factory_step c f) \<and>
         orders_ok cs (informers f)"
proof (cases c)
  case (FStart ks)
  with assms(3) have r: "range_order ks (informers f)" and o: "orders_ok cs (informers f)"
    by simp_all
  show ?thesis
  proof (cases "factoryShuttingDown f")
    case True
    with assms o FStart show ?thesis by (simp add: Start_def)
  next
    case False
    from Start_flagged [OF r assms(1) False] Start_log [OF assms(2)] o FStart
    show ?thesis by simp
  qed
next
  case FShutdown
  with assms show ?thesis
    by (simp add: launched_as_flagged_def log_of_registry_def launches_def)
next
  case (FInformerFor obj)
  with assms show ?thesis by (simp add: InformerFor_def)
qed

lemma factory_step_started:
  assumes "orders_ok (c # cs) (informers f)" "t \<in> dom (informers f)"
  shows "started (factory_step c f) t =
     (started f t \<or> (is_start c \<and> \<not> factoryShuttingDown f))"
proof (cases c)
  case (FStart ks)
  with assms(1) have "set ks = dom (informers f)" by (simp add: range_order_def)
  with assms(2) FStart show ?thesis by (simp add: Start_def fold_start_one_started)
next
  case FShutdown
  then show ?thesis by simp
next
  case (FInformerFor obj)
  then show ?thesis by (simp add: InformerFor_def)
qed

lemma factory_run_inv:
  assumes "launched_as_flagged f" "log_of_registry f" "orders_ok cs (informers f)"
  shows "launched_as_flagged (factory_run cs f) \<and> log_of_registry (factory_run cs f) \<and>
     (\<forall>t \<in> dom (informers f). started (factory_run cs f) t = (started f t \<or> start_live cs f))"
  using assms
proof (induction cs arbitrary: f)
  case Nil
  then show ?case by simp
next
  case (Cons c cs)
  note s = factory_step_inv [OF Cons.prems]
  from Cons.IH [of "factory_step c f"] s
  have ih: "launched_as_flagged (factory_run cs (factory_step c f)) \<and>
     log_of_registry (factory_run cs (factory_step c f)) \<and>
     (\<forall>t \<in> dom (informers f). started (factory_run cs (factory_step c f)) t =
        (started (factory_step c f) t \<or> start_live cs (factory_step c f)))"
    by simp
  have "\<forall>t \<in> dom (informers f).
     (started (factory_step c f) t \<or> start_live cs (factory_step c f)) =
     (started f t \<or> start_live (c # cs) f)"
  proof
    fix t assume t: "t \<in> dom (informers f)"
    note st = factory_step_started [OF Cons.prems(3) t]
    show "(started (factory_step c f) t \<or> start_live cs (factory_step c f)) =
     (started f t \<or> start_live (c # cs) f)"
    proof (cases c)
      case (FStart ks)
      show ?thesis
      proof (cases "factoryShuttingDown f")
        case True
        with st FStart show ?thesis by (simp add: factory_step_shut [of f])
      next
        case False
        with st FStart show ?thesis by auto
      qed
    next
      case FShutdown
      with st show ?thesis by simp
    next
      case (FInformerFor obj)
      with st show ?thesis by simp
    qed
  qed
  with ih show ?case by simp
qed


lemma factory_run_length:
  assumes "orders_ok cs (informers f)"
  shows "length (launched (factory_run cs f)) =
     length (launched f) +
     (if start_live cs f then card {t \<in> dom (informers f). \<not> started f t} else 0)"
  using assms
proof (induction cs arbitrary: f)
  case Nil
  then show ?case by simp
next
  case (Cons c cs)
  have "orders_ok cs (informers f)"
    using Cons.prems by (cases c) simp_all
  then have o: "orders_ok cs (informers (factory_step c f))"
    by (simp only: factory_step_informers)
  have ih: "length (launched (factory_run cs (factory_step c f))) =
      length (launched (factory_step c f)) +
      (if start_live cs (factory_step c f)
       then card {t \<in> dom (informers f). \<not> started (factory_step c f) t} else 0)"
    using Cons.IH [OF o] by simp
  show ?case
  proof (cases "is_start c \<and> \<not> factoryShuttingDown f")
    case True
    then obtain ks where c: "c = FStart ks" by (cases c) simp_all
    with Cons.prems have r: "range_order ks (informers f)" by simp
    have same: "{t \<in> set ks. t \<in> dom (informers f) \<and> \<not> started f t} =
        {t \<in> dom (informers f). \<not> started f t}"
      using r by (auto simp: range_order_def)
    have len: "length (launched (factory_step c f)) =
        length (launched f) + card {t \<in> dom (informers f). \<not> started f t}"
      using True r c same by (simp add: Start_def fold_start_one_length range_order_def)
    have "\<forall>t \<in> dom (informers f). started (factory_step c f) t"
      using factory_step_started [OF Cons.prems] True by simp
    then have "{t \<in> dom (informers f). \<not> started (factory_step c f) t} = {}" by auto
    then have "card {t \<in> dom (informers f). \<not> started (factory_step c f) t} = 0"
      by (simp only: card.empty)
    with ih len True show ?thesis by simp
  next
    case False
    have l: "launched (factory_step c f) = launched f"
    proof (cases c)
      case (FStart ks)
      with False show ?thesis by (simp add: Start_def)
    next
      case FShutdown
      then show ?thesis by simp
    next
      case (FInformerFor obj)
      then show ?thesis by (simp add: InformerFor_def)
    qed
    have "\<forall>t \<in> dom (informers f). started (factory_step c f) t = started f t"
      using factory_step_started [OF Cons.prems] False by simp
    then have e: "{t \<in> dom (informers f). \<not> started (factory_step c f) t} =
        {t \<in> dom (informers f). \<not> started f t}" by auto
    have sl: "start_live (c # cs) f = start_live cs (factory_step c f)"
      using False by auto
    show ?thesis
      unfolding sl factory_run.simps ih l e ..
  qed
qed

lemma fold_Start_run: "fold Start kss f = factory_run (map FStart kss) f"
  by (induction kss arbitrary: f) simp_all

lemma start_live_Starts:
  "\<not> factoryShuttingDown f \<Longrightarrow> kss \<noteq> [] \<Longrightarrow> start_live (map FStart kss) f"
  by (cases kss) simp_all

text \<open>
  Claim C6. Take a factory whose launch log agrees with its start flags and holds only
  what the registry holds (a new factory is one), and any sequence of \<open>Start\<close>,
  \<open>Shutdown\<close> and \<open>InformerFor\<close> calls, each \<open>Start\<close> visiting the keys of the
  registry in some order. Afterwards the log holds the pair of a key and its registered
  informer exactly once if the informer was started before or some \<open>Start\<close> was called
  while the factory was not shutting down, and not at all otherwise; every goroutine in
  the log runs the informer registered under its key; the calls launched as many
  goroutines as there were informers not yet started (none without such a \<open>Start\<close>);
  and an informer whose flag was set is not launched again. Once \<open>Shutdown\<close> has been
  called, no later \<open>Start\<close> counts: whatever calls follow, the factory stays as
  \<open>Shutdown\<close> left it and nothing is launched. Repeated \<open>Start\<close> calls are such a
  sequence, and on a factory that is not shutting down the first of them counts.
\<close>

theorem Start_launches_each_once:
  assumes "orders_ok cs (informers f)" and "launched_as_flagged f" and "log_of_registry f"
  shows
    "(\<forall>t i. informers f t = Some i \<longrightarrow>
        count_list (launched (factory_run cs f)) (t, i) =
          (if started f t \<or> start_live cs f then 1 else 0)) \<and>
     (\<forall>e \<in> set (launched (factory_run cs f)). informers f (fst e) = Some (snd e)) \<and>
     length (launched (factory_run cs f)) =
       length (launched f) +
       (if start_live cs f then card {t \<in> dom (informers f). \<not> started f t} else 0) \<and>
     (\<forall>t i. informers f t = Some i \<longrightarrow> started f t \<longrightarrow>
        count_list (launched (factory_run cs f)) (t, i) = count_list (launched f) (t, i)) \<and>
     \<not> start_live ds (Shutdown f) \<and>
     factory_run ds (Shutdown f) = Shutdown f \<and>
     launched (factory_run ds (Shutdown f)) = launched f \<and>
     fold Start kss f = factory_run (map FStart kss) f \<and>
     (\<not> factoryShuttingDown f \<and> kss \<noteq> [] \<longrightarrow> start_live (map FStart kss) f)"
proof -
  let ?g = "factory_run cs f"
  from factory_run_inv [OF assms(2,3,1)]
  have fl: "launched_as_flagged ?g" and lg: "log_of_registry ?g"
    and st: "\<forall>t \<in> dom (informers f). started ?g t = (started f t \<or> start_live cs f)"
    by simp_all
  have cnt: "\<forall>t i. informers f t = Some i \<longrightarrow>
        count_list (launched ?g) (t, i) = (if started f t \<or> start_live cs f then 1 else 0)"
  proof (intro allI impI)
    fix t i assume r: "informers f t = Some i"
    then have d: "t \<in> dom (informers f)" by auto
    have "count_list (launched ?g) (t, i) = launches ?g t"
      using lg r by (intro count_registered) simp_all
    also have "\<dots> = (if started ?g t then 1 else 0)"
      using fl d by (simp add: launched_as_flagged_def)
    finally show "count_list (launched ?g) (t, i) =
        (if started f t \<or> start_live cs f then 1 else 0)"
      using st d by simp
  qed
  have reg: "\<forall>e \<in> set (launched ?g). informers f (fst e) = Some (snd e)"
    using lg by (simp add: log_of_registry_def)
  have again: "\<forall>t i. informers f t = Some i \<longrightarrow> started f t \<longrightarrow>
        count_list (launched ?g) (t, i) = count_list (launched f) (t, i)"
  proof (intro allI impI)
    fix t i assume r: "informers f t = Some i" and s: "started f t"
    have "count_list (launched f) (t, i) = launches f t"
      using assms(3) r by (rule count_registered)
    also have "\<dots> = 1"
    proof -
      from r have "t \<in> dom (informers f)" by auto
      with assms(2) s show ?thesis by (simp add: launched_as_flagged_def)
    qed
    finally show "count_list (launched ?g) (t, i) = count_list (launched f) (t, i)"
      using cnt r s by simp
  qed
  have sh: "factoryShuttingDown (Shutdown f)" by simp
  have shut: "\<not> start_live ds (Shutdown f)" "factory_run ds (Shutdown f) = Shutdown f"
    by (rule start_live_shut [OF sh], rule factory_run_shut [OF sh])
  then have shl: "launched (factory_run ds (Shutdown f)) = launched f" by simp
  show ?thesis
    using cnt reg factory_run_length [OF assms(1)] again shut shl fold_Start_run [of kss f]
      start_live_Starts [of f kss]
    by blast
qed

text \<open>
  The theorem at a new factory with two informers: two \<open>Start\<close> calls, a
  \<open>Shutdown\<close> and a third \<open>Start\<close> launch each informer once; and two \<open>Start\<close>
  calls after a \<open>Shutdown\<close> launch nothing.
\<close>

theorem Start_launches_each_once_witness:
  "orders_ok [FStart [1, 2], FInformerFor (), FStart [2, 1], FShutdown, FStart [1, 2]]
     (informers \<lparr>informers = [1::nat \<mapsto> ''a'', 2 \<mapsto> ''b''], staredInformers = Map.empty, wg = 0,
       factoryShuttingDown = False, launched = []\<rparr>) \<and>
   launched_as_flagged \<lparr>informers = [1::nat \<mapsto> ''a'', 2 \<mapsto> ''b''], staredInformers = Map.empty, wg = 0,
       factoryShuttingDown = False, launched = []\<rparr> \<and>
   log_of_registry \<lparr>informers = [1::nat \<mapsto> ''a'', 2 \<mapsto> ''b''], staredInformers = Map.empty, wg = 0,
       factoryShuttingDown = False, launched = []\<rparr> \<and>
   launched (factory_run [FStart [1, 2], FInformerFor (), FStart [2, 1], FShutdown, FStart [1, 2]]
     \<lparr>informers = [1::nat \<mapsto> ''a'', 2 \<mapsto> ''b''], staredInformers = Map.empty, wg = 0,
       factoryShuttingDown = False, launched = []\<rparr>) = [(1, ''a''), (2, ''b'')] \<and>
   count_list (launched (factory_run [FStart [1, 2], FInformerFor (), FStart [2, 1], FShutdown, FStart [1, 2]]
     \<lparr>informers = [1::nat \<mapsto> ''a'', 2 \<mapsto> ''b''], staredInformers = Map.empty, wg = 0,
       factoryShuttingDown = False, launched = []\<rparr>)) (2, ''b'') = 1 \<and>
   launched (factory_run [FStart [1, 2], FStart [2, 1]]
     (Shutdown \<lparr>informers = [1::nat \<mapsto> ''a'', 2 \<mapsto> ''b''], staredInformers = Map.empty, wg = 0,
       factoryShuttingDown = False, launched = []\<rparr>)) = []"
  using Start_launches_each_once
     [of "[FStart [1, 2], FInformerFor (), FStart [2, 1], FShutdown, FStart [1, 2]]"
     "\<lparr>informers = [1::nat \<mapsto> ''a'', 2 \<mapsto> ''b''], staredInformers = Map.empty, wg = 0,
       factoryShuttingDown = False, launched = []\<rparr>" "[FStart [1, 2], FStart [2, 1]]"]
  by (simp add: range_order_def launched_as_flagged_def log_of_registry_def launches_def
      started_def Start_def start_one_def Shutdown_def InformerFor_def insert_commute)

text \<open>
  Claim C1 says that \<open>InformerFor\<close> returns the registered informer or constructs and
  registers one. The method in the source returns \<open>nil\<close> for every argument and leaves
  the factory, and so the registry, as it was.
\<close>

theorem InformerFor_returns_nil:
  "fst (InformerFor f obj) = None \<and> snd (InformerFor f obj) = f"
  by (simp add: InformerFor_def)

section \<open>Properties of the rate limiters\<close>
























text \<open>The default limiter is a combinator over two limiters allocated before it.\<close>

lemma DefaultContrllerRateLimiter_built:
  "fst (DefaultContrllerRateLimiter delays) = 2 \<and>
   node_at (snd (DefaultContrllerRateLimiter delays)) 2 = Some (MaxOfRateLimiter [0, 1]) \<and>
   built_in_order (snd (DefaultContrllerRateLimiter delays))"
  by (simp add: DefaultContrllerRateLimiter_def allocate_def NewMaxOfRateLimiter_def node_at_def
      built_in_order_def less_Suc_eq eval_nat_numeral)

lemmas limiter_evals =
  node_at_def NewItemFastSlowRateLimiter_def count_def wrap64_def second_def



text \<open>
  One limiter held twice, \<open>NewMaxOfRateLimiter(l, l)\<close>, where \<open>l\<close> returns 2s for
  the first failure of an item and 9s from the second on: \<open>When\<close> of the combinator
  calls \<open>l.When\<close> twice and returns 9s, and \<open>l\<close> has counted two failures.
\<close>

lemma MaxOf_shared_child:
  "fst (When amd64_conv (NewItemFastSlowRateLimiter (2 * second) (9 * second) 1) (1::nat)) =
     2 * second \<and>
   map_option fst (child_results amd64_conv 1
       [Leaf (NewItemFastSlowRateLimiter (2 * second) (9 * second) 1), MaxOfRateLimiter [0, 0]]
       [0, 0] (1::nat)) = Some [2 * second, 9 * second] \<and>
   map_option fst (When_at amd64_conv 2
       [Leaf (NewItemFastSlowRateLimiter (2 * second) (9 * second) 1), MaxOfRateLimiter [0, 0]]
       1 (1::nat)) = Some (9 * second) \<and>
   NumRequeues_at 2 (snd (the (When_at amd64_conv 2
       [Leaf (NewItemFastSlowRateLimiter (2 * second) (9 * second) 1), MaxOfRateLimiter [0, 0]]
       1 (1::nat)))) 1 1 = Some 2"
  by (simp add: limiter_evals eval_nat_numeral)


lemma wrap64_id: "- (2 ^ 63) \<le> x \<Longrightarrow> x < 2 ^ 63 \<Longrightarrow> wrap64 x = x"
  by (simp add: wrap64_def)

lemma round53_small:
  assumes "\<bar>b\<bar> < 2 ^ 53"
  shows "round53 b = b"
proof -
  have "bitlen \<bar>b\<bar> \<le> 53"
    using assms bitlen_le_iff_power [of "\<bar>b\<bar>" 53] by simp
  then show ?thesis by (simp add: round53_def Let_def)
qed

lemma trunc_of_int [simp]: "trunc (of_int i) = i"
  by (simp add: trunc_def)

lemma rat_le_int_pow: "((2::rat) ^ n \<le> of_int x) = (2 ^ n \<le> x)"
  by (metis of_int_le_iff of_int_numeral of_int_power)

lemma rat_int_le_neg_pow: "((of_int x :: rat) \<le> - (2 ^ n)) = (x \<le> - (2 ^ n))"
  by (metis of_int_le_iff of_int_minus of_int_numeral of_int_power)

lemma rat_less_int_pow: "((2::rat) ^ n < of_int x) = (2 ^ n < x)"
  by (metis of_int_less_iff of_int_numeral of_int_power)

lemma rat_int_scaled: "(of_int b :: rat) * 2 ^ e = of_int (b * 2 ^ e)"
  by simp

lemma f64_mul_scaled:
  "f64_mul (Fin (of_int b)) (Fin (2 ^ e)) =
     (if 2 ^ 1024 \<le> b * 2 ^ e then PosInf
      else if b * 2 ^ e \<le> - (2 ^ 1024) then NegInf
      else Fin (of_int (b * 2 ^ e)))"
  unfolding f64_mul.simps rat_int_scaled rat_le_int_pow rat_int_le_neg_pow ..

lemma gt_MaxInt64_int: "gt_MaxInt64 (Fin (of_int x)) = (2 ^ 63 < x)"
  unfolding gt_MaxInt64_def f64.case rat_less_int_pow ..

lemma int64_of_f64_int:
  "- (2 ^ 63) \<le> x \<Longrightarrow> x < 2 ^ 63 \<Longrightarrow> int64_of_f64 conv (Fin (of_int x)) = x"
  unfolding int64_of_f64_def f64.case trunc_of_int by simp

lemma exponential_delay_exact:
  assumes rep: "round53 b = b"
    and m: "m < 2 ^ 63"
    and lo: "- (2 ^ 63) \<le> b * 2 ^ e"
    and edge: "b * 2 ^ e \<noteq> 2 ^ 63"
    and zero: "b = 0 \<longrightarrow> e < 1024"
  shows "exponential_delay conv b m (int e) = min (b * 2 ^ e) m"
proof -
  let ?P = "b * 2 ^ e"
  define B where "B = f64_mul (f64_of_int b) (pow2 (int e))"
  have ed: "exponential_delay conv b m (int e) =
      (if gt_MaxInt64 B then m
       else if m < int64_of_f64 conv B then m else int64_of_f64 conv B)"
    by (simp add: exponential_delay_def Let_def B_def)
  have big: "(2::int) ^ 63 < 2 ^ 1024" by simp
  show ?thesis
  proof (cases "e < 1024")
    case True
    have p2: "pow2 (int e) = Fin (2 ^ e)"
      using True by (simp add: pow2_def)
    have nlow: "\<not> ?P \<le> - (2 ^ 1024)" using lo big by linarith
    have backoff: "B = (if 2 ^ 1024 \<le> ?P then PosInf else Fin (of_int ?P))"
      unfolding B_def f64_of_int_def rep p2 f64_mul_scaled using nlow by simp
    show ?thesis
    proof (cases "2 ^ 1024 \<le> ?P")
      case True
      then have "m < ?P" using m big by linarith
      moreover have "gt_MaxInt64 B" using True backoff by (simp add: gt_MaxInt64_def)
      ultimately show ?thesis unfolding ed by simp
    next
      case False
      then have B: "B = Fin (of_int ?P)" using backoff by simp
      show ?thesis
      proof (cases "2 ^ 63 < ?P")
        case True
        then have "m < ?P" using m by linarith
        moreover have "gt_MaxInt64 B" unfolding B gt_MaxInt64_int using True .
        ultimately show ?thesis unfolding ed by simp
      next
        case False
        with edge have up: "?P < 2 ^ 63" by simp
        have "\<not> gt_MaxInt64 B" unfolding B gt_MaxInt64_int using False .
        moreover have "int64_of_f64 conv B = ?P"
          unfolding B using lo up by (rule int64_of_f64_int)
        ultimately show ?thesis unfolding ed by (simp add: min_def)
      qed
    qed
  next
    case False
    then have e: "1024 \<le> e" by simp
    with zero have bn: "b \<noteq> 0" by auto
    have pw: "(2::int) ^ 1024 \<le> 2 ^ e" using e by (intro power_increasing) simp_all
    have "0 < b"
    proof (rule ccontr)
      assume "\<not> 0 < b"
      with bn have "b \<le> - 1" by simp
      then have "b * 2 ^ e \<le> - 1 * 2 ^ e" by (intro mult_right_mono) simp_all
      with pw have "b * 2 ^ e \<le> - (2 ^ 1024)" by linarith
      with lo big show False by linarith
    qed
    then have "1 * 2 ^ e \<le> b * 2 ^ e" by (intro mult_right_mono) simp_all
    with pw have "m < b * 2 ^ e" using m big by linarith
    moreover have "pow2 (int e) = PosInf" using e by (simp add: pow2_def)
    then have "gt_MaxInt64 B"
      using \<open>0 < b\<close> by (simp add: B_def f64_of_int_def rep gt_MaxInt64_def)
    ultimately show ?thesis unfolding ed by simp
  qed
qed

lemma count_upd: "count (f(j \<mapsto> v)) k = (if k = j then v else count f k)"
  by (simp add: count_def)

lemma count_del: "count (f(j := None)) k = (if k = j then 0 else count f k)"
  by (simp add: count_def)

lemma limiter_run_exponential:
  "\<exists>f'. limiter_run conv cs (ItemExponentialFailureRateLimiter f b m) =
          ItemExponentialFailureRateLimiter f' b m \<and>
        (CallForget k \<notin> set cs \<longrightarrow> 0 \<le> count f k \<longrightarrow>
         count f k + int (count_list cs (CallWhen k)) < 2 ^ 63 \<longrightarrow>
         count f' k = count f k + int (count_list cs (CallWhen k)))"
proof (induction cs arbitrary: f)
  case Nil
  then show ?case by simp
next
  case (Cons c cs)
  show ?case
  proof (cases c)
    case (CallWhen j)
    let ?g = "f(j \<mapsto> wrap64 (count f j + 1))"
    from Cons.IH [of ?g] obtain f' where
      r: "limiter_run conv cs (ItemExponentialFailureRateLimiter ?g b m) =
          ItemExponentialFailureRateLimiter f' b m"
      and c: "CallForget k \<notin> set cs \<longrightarrow> 0 \<le> count ?g k \<longrightarrow>
         count ?g k + int (count_list cs (CallWhen k)) < 2 ^ 63 \<longrightarrow>
         count f' k = count ?g k + int (count_list cs (CallWhen k))"
      by blast
    have "CallForget k \<notin> set (c # cs) \<longrightarrow> 0 \<le> count f k \<longrightarrow>
         count f k + int (count_list (c # cs) (CallWhen k)) < 2 ^ 63 \<longrightarrow>
         count f' k = count f k + int (count_list (c # cs) (CallWhen k))"
    proof (cases "j = k")
      case True
      show ?thesis
      proof (intro impI)
        assume a: "CallForget k \<notin> set (c # cs)" and b: "0 \<le> count f k"
          and d: "count f k + int (count_list (c # cs) (CallWhen k)) < 2 ^ 63"
        from d True CallWhen have "count f k + 1 < 2 ^ 63" by simp
        with b have w: "wrap64 (count f k + 1) = count f k + 1"
          by (intro wrap64_id) simp_all
        have "count ?g k = count f k + 1" using True w by (simp add: count_upd)
        with c a b d True CallWhen
        show "count f' k = count f k + int (count_list (c # cs) (CallWhen k))"
          by simp
      qed
    next
      case False
      then have "count ?g k = count f k" by (simp add: count_upd)
      with c False CallWhen show ?thesis by simp
    qed
    with r CallWhen show ?thesis by simp
  next
    case (CallForget j)
    let ?g = "f(j := None)"
    from Cons.IH [of ?g] obtain f' where
      r: "limiter_run conv cs (ItemExponentialFailureRateLimiter ?g b m) =
          ItemExponentialFailureRateLimiter f' b m"
      and c: "CallForget k \<notin> set cs \<longrightarrow> 0 \<le> count ?g k \<longrightarrow>
         count ?g k + int (count_list cs (CallWhen k)) < 2 ^ 63 \<longrightarrow>
         count f' k = count ?g k + int (count_list cs (CallWhen k))"
      by blast
    have "j \<noteq> k \<longrightarrow> count ?g k = count f k" by (simp add: count_del)
    with r c CallForget show ?thesis by auto
  next
    case (CallNumRequeues j)
    with Cons.IH [of f] show ?thesis by simp
  qed
qed


lemma second_exact: "round53 second = second"
  by (rule round53_small) (simp add: second_def)

lemma second_delay:
  assumes "e < 34"
  shows "exponential_delay conv second (60 * second) (int e) = min (second * 2 ^ e) (60 * second)"
proof -
  have "(2::int) ^ e \<le> 2 ^ 33" using assms by (intro power_increasing) simp_all
  then have "second * 2 ^ e \<le> second * 2 ^ 33"
    by (intro mult_left_mono) (simp_all add: second_def)
  also have "second * 2 ^ 33 < 2 ^ 63" by (simp add: second_def)
  finally have up: "second * 2 ^ e < 2 ^ 63" .
  have "0 \<le> second * 2 ^ e" by (simp add: second_def)
  moreover have "- (2 ^ 63) \<le> (0::int)" by simp
  ultimately have lo: "- (2 ^ 63) \<le> second * 2 ^ e" by (rule order_trans [rotated])
  show ?thesis
    using up by (intro exponential_delay_exact second_exact lo) (simp_all add: second_def)
qed

lemma exponential_sequence:
  "Whens conv (NewItemExponentialFailureRateLimiter second (60 * second)) k 8 =
     [1 * second, 2 * second, 4 * second, 8 * second, 16 * second, 32 * second,
      60 * second, 60 * second]"
proof -
  have d: "exponential_delay conv second (60 * second) 0 = 1 * second"
    "exponential_delay conv second (60 * second) 1 = 2 * second"
    "exponential_delay conv second (60 * second) 2 = 4 * second"
    "exponential_delay conv second (60 * second) 3 = 8 * second"
    "exponential_delay conv second (60 * second) 4 = 16 * second"
    "exponential_delay conv second (60 * second) 5 = 32 * second"
    "exponential_delay conv second (60 * second) 6 = 60 * second"
    "exponential_delay conv second (60 * second) 7 = 60 * second"
    using second_delay [of 0 conv] second_delay [of 1 conv] second_delay [of 2 conv]
      second_delay [of 3 conv] second_delay [of 4 conv] second_delay [of 5 conv]
      second_delay [of 6 conv] second_delay [of 7 conv]
    by (simp_all add: second_def)
  have n: "8 = Suc (Suc (Suc (Suc (Suc (Suc (Suc (Suc 0)))))))" by simp
  show ?thesis
    unfolding n NewItemExponentialFailureRateLimiter_def
    by (simp add: d count_def wrap64_def)
qed

text \<open>
  Claim C4, as the code keeps it. Let the base delay \<open>b\<close> be a \<open>float64\<close> exactly
  (every \<open>b\<close> below \<open>2^53\<close> ns in magnitude is, by \<open>round53_small\<close>), let \<open>m\<close>
  be the maximal delay, and let no failure be recorded for \<open>k\<close>. After any calls that
  do not forget \<open>k\<close>, of which \<open>n - 1\<close> are \<open>When k\<close>, the next \<open>When k\<close> (the
  \<open>n\<close>-th, with \<open>n\<close> at most \<open>2^63\<close>) returns \<open>min (b * 2^(n-1)) m\<close>, provided
  that \<open>b * 2^(n-1)\<close> is not below \<open>-2^63\<close>, is not \<open>2^63\<close> itself, and that
  \<open>n\<close> is at most 1024 if \<open>b\<close> is 0. So a product above \<open>2^63\<close> gives \<open>m\<close>. With
  \<open>b\<close> = 1s and \<open>m\<close> = 60s the first eight delays are 1s, 2s, 4s, 8s, 16s, 32s, 60s,
  60s.
\<close>

theorem exponential_When_nth:
  assumes "round53 b = b" and "m < 2 ^ 63"
    and "count failures k = 0"
    and "CallForget k \<notin> set cs"
    and "n = Suc (count_list cs (CallWhen k))"
    and "int n \<le> 2 ^ 63"
    and "- (2 ^ 63) \<le> b * 2 ^ (n - 1)"
    and "b * 2 ^ (n - 1) \<noteq> 2 ^ 63"
    and "b = 0 \<longrightarrow> n \<le> 1024"
  shows
    "fst (When conv (limiter_run conv cs (ItemExponentialFailureRateLimiter failures b m)) k)
       = min (b * 2 ^ (n - 1)) m \<and>
     (2 ^ 63 < b * 2 ^ (n - 1) \<longrightarrow>
        fst (When conv (limiter_run conv cs (ItemExponentialFailureRateLimiter failures b m)) k)
          = m) \<and>
     Whens conv (NewItemExponentialFailureRateLimiter second (60 * second)) k 8 =
       [1 * second, 2 * second, 4 * second, 8 * second, 16 * second, 32 * second,
        60 * second, 60 * second]"
proof -
  from limiter_run_exponential [of conv cs failures b m k] obtain f' where
    r: "limiter_run conv cs (ItemExponentialFailureRateLimiter failures b m) =
          ItemExponentialFailureRateLimiter f' b m"
    and c: "CallForget k \<notin> set cs \<longrightarrow> 0 \<le> count failures k \<longrightarrow>
         count failures k + int (count_list cs (CallWhen k)) < 2 ^ 63 \<longrightarrow>
         count f' k = count failures k + int (count_list cs (CallWhen k))"
    by blast
  have e: "count f' k = int (n - 1)"
    using c assms(3,4,5,6) by simp
  have z: "b = 0 \<longrightarrow> n - 1 < 1024" using assms(5,9) by auto
  have "exponential_delay conv b m (int (n - 1)) = min (b * 2 ^ (n - 1)) m"
    using assms(1,2,7,8) z by (rule exponential_delay_exact)
  then have w: "fst (When conv (limiter_run conv cs (ItemExponentialFailureRateLimiter failures b m)) k)
       = min (b * 2 ^ (n - 1)) m"
    by (simp add: r e)
  have "2 ^ 63 < b * 2 ^ (n - 1) \<longrightarrow> min (b * 2 ^ (n - 1)) m = m"
    using assms(2) by simp
  with w exponential_sequence [of conv k] show ?thesis by simp
qed

text \<open>
  The theorem at the default limiter's parameters (5ms, 1000s): the third \<open>When 7\<close>,
  with calls for another item in between, returns 20ms.
\<close>

theorem exponential_When_nth_witness:
  "round53 (5 * millisecond) = 5 * millisecond \<and> 1000 * second < 2 ^ 63 \<and>
   count (Map.empty :: nat \<rightharpoonup> int) 7 = 0 \<and>
   CallForget 7 \<notin> set [CallWhen (7::nat), CallWhen 3, CallForget 3, CallWhen 7, CallNumRequeues 7] \<and>
   3 = Suc (count_list [CallWhen (7::nat), CallWhen 3, CallForget 3, CallWhen 7, CallNumRequeues 7] (CallWhen 7)) \<and>
   int 3 \<le> 2 ^ 63 \<and>
   - (2 ^ 63) \<le> (5 * millisecond) * 2 ^ (3 - 1) \<and>
   (5 * millisecond) * 2 ^ (3 - 1) \<noteq> 2 ^ 63 \<and>
   5 * millisecond \<noteq> 0 \<and>
   fst (When amd64_conv
     (limiter_run amd64_conv [CallWhen (7::nat), CallWhen 3, CallForget 3, CallWhen 7, CallNumRequeues 7]
        (ItemExponentialFailureRateLimiter Map.empty (5 * millisecond) (1000 * second))) 7)
     = 20 * millisecond"
  using exponential_When_nth [of "5 * millisecond" "1000 * second" "Map.empty :: nat \<rightharpoonup> int" 7
      "[CallWhen (7::nat), CallWhen 3, CallForget 3, CallWhen 7, CallNumRequeues 7]" 3 amd64_conv]
    round53_small [of "5 * millisecond"]
  by (simp add: millisecond_def second_def count_def)


text \<open>
  The product \<open>2^63\<close> itself is not greater than \<open>math.MaxInt64\<close> as a
  \<open>float64\<close> and reaches the conversion: with a base delay of 1ns the call that finds
  63 failures returns what the platform makes of it, on amd64 \<open>-2^63\<close> ns.
\<close>

lemma exponential_edge_amd64:
  "exponential_delay amd64_conv 1 (1000 * second) 63 = - (2 ^ 63)"
proof -
  have r: "round53 1 = 1" by (rule round53_small) simp
  show ?thesis
    by (simp add: exponential_delay_def f64_of_int_def r pow2_def gt_MaxInt64_def
        int64_of_f64_def trunc_def amd64_conv_def second_def Let_def)
qed

lemma bitlen_example: "bitlen 9007199254740993 = 54"
  by code_simp

lemma round53_example: "round53 9007199254740993 = 9007199254740992"
  by (simp add: round53_def bitlen_example Let_def)

text \<open>
  A base delay of \<open>2^53 + 1\<close> ns is not a \<open>float64\<close>: the conversion rounds it to
  \<open>2^53\<close>, and the first \<open>When\<close> returns \<open>2^53\<close> ns, one less than the base delay.
\<close>

theorem exponential_When_counterexample:
  "fst (When amd64_conv (NewItemExponentialFailureRateLimiter 9007199254740993 (2 ^ 62)) (1::nat))
     \<noteq> min (9007199254740993 * 2 ^ (1 - 1)) (2 ^ 62)"
  by (simp add: NewItemExponentialFailureRateLimiter_def count_def exponential_delay_def
      f64_of_int_def pow2_def gt_MaxInt64_def int64_of_f64_def trunc_def round53_example Let_def)

section \<open>Properties of the delaying queue\<close>

lemma same_times_refl: "same_times w w"
  by (simp add: same_times_def)

lemma same_times_trans: "same_times a b \<Longrightarrow> same_times b c \<Longrightarrow> same_times a c"
  by (simp add: same_times_def)

lemma same_times_pq: "same_times w (w\<lparr>waitingForQueue := xs\<rparr>)"
  by (simp add: same_times_def)

lemma set_index_same: "set_index p i w = Some w' \<Longrightarrow> same_times w w'"
  by (auto simp: set_index_def same_times_def split: option.splits)

lemma Swap_same: "Swap w i j = Some w' \<Longrightarrow> same_times w w'"
  unfolding Swap_def Let_def
  by (auto split: option.splits
      intro: same_times_trans [OF same_times_pq same_times_trans [OF set_index_same set_index_same]])

lemma heap_up_same: "heap_up w j = Some w' \<Longrightarrow> same_times w w'"
proof (induction w j rule: heap_up.induct)
  case (1 w j)
  show ?case
    using "1.prems" "1.IH"
    by (subst (asm) heap_up.simps)
      (auto simp: Let_def same_times_refl split: if_splits option.splits
        intro: same_times_trans [OF Swap_same])
qed

lemma heap_down_loop_same: "heap_down_loop w i n = Some r \<Longrightarrow> same_times w (snd r)"
proof (induction w i n arbitrary: r rule: heap_down_loop.induct)
  case (1 w i n)
  define j1 where "j1 = 2 * i + 1"
  note run = "1.prems" [unfolded heap_down_loop.simps [of w i n], folded j1_def]
  show ?case
  proof (cases "n \<le> j1 \<or> j1 < 0")
    case True
    with run have "r = (i, w)" by (simp add: Let_def)
    then show ?thesis by (simp add: same_times_refl)
  next
    case False
    with run obtain rt where
      rt: "(if j1 + 1 < n then Less w (j1 + 1) j1 else Some False) = Some rt"
      by (cases "if j1 + 1 < n then Less w (j1 + 1) j1 else Some False") (simp_all add: Let_def)
    define j where "j = (if rt then j1 + 1 else j1)"
    from run False rt obtain lt where lt: "Less w j i = Some lt"
      by (cases "Less w j i") (simp_all add: Let_def j_def)
    show ?thesis
    proof (cases lt)
      case False
      with run \<open>\<not> (n \<le> j1 \<or> j1 < 0)\<close> rt lt have "r = (i, w)"
        by (simp add: Let_def j_def)
      then show ?thesis by (simp add: same_times_refl)
    next
      case True
      with run \<open>\<not> (n \<le> j1 \<or> j1 < 0)\<close> rt lt obtain w' where
        sw: "Swap w i j = Some w'" and rec: "heap_down_loop w' j n = Some r"
        by (cases "Swap w i j") (simp_all add: Let_def j_def)
      have nn: "\<not> \<not> lt" using True by simp
      have "same_times w' (snd r)"
        by (rule "1.IH" [OF j1_def \<open>\<not> (n \<le> j1 \<or> j1 < 0)\<close> rt j_def lt nn sw rec])
      with Swap_same [OF sw] show ?thesis by (rule same_times_trans)
    qed
  qed
qed

lemma heap_Fix_same: "heap_Fix w i = Some w' \<Longrightarrow> same_times w w'"
  by (auto simp: heap_Fix_def heap_down_def split: option.splits if_splits prod.splits
      dest!: heap_down_loop_same heap_up_same intro: same_times_trans)

lemma heap_Push_same: "heap_Push w p = Some w' \<Longrightarrow> same_times w w'"
  by (auto simp: heap_Push_def Push_def split: option.splits
      dest!: heap_up_same set_index_same
      intro: same_times_trans [OF _ same_times_trans [OF same_times_pq]])

lemma same_times_readyAt:
  assumes "same_times w w'"
  shows "map_option readyAt (store w' p) = map_option readyAt (store w p)"
proof -
  from assms have "map_option (\<lambda>e. (data e, readyAt e)) (store w' p) =
         map_option (\<lambda>e. (data e, readyAt e)) (store w p)"
    by (simp add: same_times_def)
  then have "map_option snd (map_option (\<lambda>e. (data e, readyAt e)) (store w' p)) =
         map_option snd (map_option (\<lambda>e. (data e, readyAt e)) (store w p))"
    by simp
  then show ?thesis
    by (simp add: option.map_comp comp_def)
qed

lemma same_times_scheduled: "same_times w w' \<Longrightarrow> scheduled w' k = scheduled w k"
  using same_times_readyAt [of w w']
  by (simp add: scheduled_def same_times_def split: option.splits)

text \<open>
  What \<open>insert\<close> does to the schedule whenever it returns: the item of the request is
  scheduled at the earlier of its old time and the requested one (at the requested one if
  it had none), and no other item's time changes.
\<close>

lemma insert_entry_tightens:
  assumes "insert_entry w entry = Some w'" and "entries_wf w"
  shows "scheduled w' (data entry) =
           Some (case scheduled w (data entry) of
                   None \<Rightarrow> readyAt entry
                 | Some r \<Rightarrow> min r (readyAt entry)) \<and>
         (\<forall>k. k \<noteq> data entry \<longrightarrow> scheduled w' k = scheduled w k)"
proof (cases "waitingEntryByData w (data entry)")
  case None
  let ?p = "allocated w"
  let ?w1 = "w\<lparr>store := (store w)(?p \<mapsto> entry), allocated := Suc ?p\<rparr>"
  from assms(1) None obtain w2 where
    push: "heap_Push ?w1 ?p = Some w2"
    and w': "w' = w2\<lparr>waitingEntryByData := (waitingEntryByData w2)(data entry \<mapsto> ?p)\<rparr>"
    by (auto simp: insert_entry_def Let_def split: option.splits)
  note s = heap_Push_same [OF push]
  have st: "map_option readyAt (store w2 ?p) = Some (readyAt entry)"
    using same_times_readyAt [OF s, of ?p] by simp
  have here: "scheduled w' (data entry) = Some (readyAt entry)"
    using st by (simp add: scheduled_def w')
  have other: "\<forall>k. k \<noteq> data entry \<longrightarrow> scheduled w' k = scheduled w k"
  proof (intro allI impI)
    fix k assume k: "k \<noteq> data entry"
    have "scheduled w' k = scheduled w2 k"
      using k by (simp add: scheduled_def w' split: option.splits)
    also have "\<dots> = scheduled ?w1 k" by (rule same_times_scheduled [OF s])
    also have "\<dots> = scheduled w k"
    proof (cases "waitingEntryByData w k")
      case None
      then show ?thesis by (simp add: scheduled_def)
    next
      case (Some p)
      with assms(2) have "p < allocated w" by (auto simp: entries_wf_def)
      with Some show ?thesis by (simp add: scheduled_def)
    qed
    finally show "scheduled w' k = scheduled w k" .
  qed
  from here other None show ?thesis by (simp add: scheduled_def)
next
  case (Some p)
  with assms(2) obtain existing where
    ex: "store w p = Some existing" and d: "data existing = data entry"
    by (auto simp: entries_wf_def)
  show ?thesis
  proof (cases "readyAt entry < readyAt existing")
    case False
    with assms(1) Some ex have "w' = w" by (simp add: insert_entry_def)
    with Some ex False show ?thesis by (simp add: scheduled_def min_def)
  next
    case True
    let ?w1 = "w\<lparr>store := (store w)(p \<mapsto> existing\<lparr>readyAt := readyAt entry\<rparr>)\<rparr>"
    from assms(1) Some ex True have fx: "heap_Fix ?w1 (index existing) = Some w'"
      by (simp add: insert_entry_def)
    note s = heap_Fix_same [OF fx]
    have here: "scheduled w' (data entry) = Some (readyAt entry)"
      using same_times_scheduled [OF s, of "data entry"] Some by (simp add: scheduled_def)
    have other: "\<forall>k. k \<noteq> data entry \<longrightarrow> scheduled w' k = scheduled w k"
    proof (intro allI impI)
      fix k assume k: "k \<noteq> data entry"
      have "scheduled ?w1 k = scheduled w k"
      proof (cases "waitingEntryByData w k")
        case None
        then show ?thesis by (simp add: scheduled_def)
      next
        case (Some p')
        with assms(2) obtain e' where "store w p' = Some e'" "data e' = k"
          by (auto simp: entries_wf_def)
        with ex d k have "p' \<noteq> p" by auto
        with Some show ?thesis by (simp add: scheduled_def)
      qed
      with same_times_scheduled [OF s, of k] show "scheduled w' k = scheduled w k" by simp
    qed
    from here other Some ex True show ?thesis by (simp add: scheduled_def min_def)
  qed
qed

lemmas heap_evals =
  insert_entry_def heap_Push_def heap_Pop_def heap_Fix_def heap_down_def heap_up.simps
  heap_down_loop.simps addReadyEntries.simps Push_def Pop_def Peek_def Swap_def Less_def
  set_index_def entry_at_def pq_at_def pq_Len_def quot2_def no_waiting_def Let_def

lemmas loop_evals =
  waitingLoop_iteration_def receive_def AddAfter_def newDelayingQueue_def ShuttingDown_def
  newQueue_def Add_def

text \<open>
  Claim C5 says that a request for an item that is waiting, with an earlier time, replaces
  the time of its entry. The code does not get through it in the following run.
  \<open>AddAfter\<close> is called for \<open>a\<close> with a delay of 10 and then for \<open>b\<close> with a delay
  of 5, both at time 0, and the loop inserts both entries: \<open>b\<close> is exchanged with \<open>a\<close>
  on its way to the root, and \<open>Swap\<close> leaves each of the two with the index of the
  position it came from. At time 5 the loop pops \<open>b\<close>, and the entry of \<open>a\<close>, now alone
  at position 0, keeps the index 1. At time 6 \<open>AddAfter\<close> is called for \<open>a\<close> with a
  delay of 1: \<open>insert\<close> finds the entry of \<open>a\<close>, whose time 10 is after 7, and calls
  \<open>heap.Fix\<close> at index 1, where \<open>Less(1, 0)\<close> reads past the end of the slice. The
  loop's goroutine panics.
\<close>

theorem insert_earlier_time_panics:
  "AddAfter (newDelayingQueue newQueue) ''a'' 10 0 =
     Returns ((newDelayingQueue newQueue)
       \<lparr>waitingForAddCh := [\<lparr>data = ''a'', readyAt = 10, index = 0\<rparr>]\<rparr>) \<and>
   AddAfter ((newDelayingQueue newQueue)
       \<lparr>waitingForAddCh := [\<lparr>data = ''a'', readyAt = 10, index = 0\<rparr>]\<rparr>) ''b'' 5 0 =
     Returns ((newDelayingQueue newQueue)
       \<lparr>waitingForAddCh := [\<lparr>data = ''a'', readyAt = 10, index = 0\<rparr>,
                            \<lparr>data = ''b'', readyAt = 5, index = 0\<rparr>]\<rparr>) \<and>
   waitingLoop_iteration 0 WakeRequest 0
     (no_waiting,
      (newDelayingQueue newQueue)
       \<lparr>waitingForAddCh := [\<lparr>data = ''a'', readyAt = 10, index = 0\<rparr>,
                            \<lparr>data = ''b'', readyAt = 5, index = 0\<rparr>]\<rparr>) =
     Continues
       (\<lparr>store = [1 \<mapsto> \<lparr>data = ''b'', readyAt = 5, index = 1\<rparr>,
                  0 \<mapsto> \<lparr>data = ''a'', readyAt = 10, index = 0\<rparr>],
         waitingForQueue = [1, 0], waitingEntryByData = [''a'' \<mapsto> 0, ''b'' \<mapsto> 1],
         allocated = 2\<rparr>,
        newDelayingQueue newQueue) \<and>
   AddAfter (newDelayingQueue newQueue) ''a'' 1 6 =
     Returns ((newDelayingQueue newQueue)
       \<lparr>waitingForAddCh := [\<lparr>data = ''a'', readyAt = 7, index = 0\<rparr>]\<rparr>) \<and>
   addReadyEntries 5
     \<lparr>store = [1 \<mapsto> \<lparr>data = ''b'', readyAt = 5, index = 1\<rparr>,
                0 \<mapsto> \<lparr>data = ''a'', readyAt = 10, index = 0\<rparr>],
       waitingForQueue = [1, 0], waitingEntryByData = [''a'' \<mapsto> 0, ''b'' \<mapsto> 1],
       allocated = 2\<rparr> newQueue =
     Some (\<lparr>store = [1 \<mapsto> \<lparr>data = ''b'', readyAt = 5, index = - 1\<rparr>,
                     0 \<mapsto> \<lparr>data = ''a'', readyAt = 10, index = 1\<rparr>],
            waitingForQueue = [0], waitingEntryByData = [''a'' \<mapsto> 0], allocated = 2\<rparr>,
           Add ''b'' newQueue) \<and>
   insert_entry
     \<lparr>store = [1 \<mapsto> \<lparr>data = ''b'', readyAt = 5, index = - 1\<rparr>,
                0 \<mapsto> \<lparr>data = ''a'', readyAt = 10, index = 1\<rparr>],
       waitingForQueue = [0], waitingEntryByData = [''a'' \<mapsto> 0], allocated = 2\<rparr>
     \<lparr>data = ''a'', readyAt = 7, index = 0\<rparr> = None \<and>
   waitingLoop_iteration 5 WakeRequest 6
     (\<lparr>store = [1 \<mapsto> \<lparr>data = ''b'', readyAt = 5, index = 1\<rparr>,
                 0 \<mapsto> \<lparr>data = ''a'', readyAt = 10, index = 0\<rparr>],
        waitingForQueue = [1, 0], waitingEntryByData = [''a'' \<mapsto> 0, ''b'' \<mapsto> 1],
        allocated = 2\<rparr>,
      (newDelayingQueue newQueue)
        \<lparr>waitingForAddCh := [\<lparr>data = ''a'', readyAt = 7, index = 0\<rparr>]\<rparr>) = Panics"
proof -
  have a: "AddAfter (newDelayingQueue newQueue) ''a'' 10 0 =
     Returns ((newDelayingQueue newQueue)
       \<lparr>waitingForAddCh := [\<lparr>data = ''a'', readyAt = 10, index = 0\<rparr>]\<rparr>)"
    by (simp add: loop_evals)
  have b: "AddAfter ((newDelayingQueue newQueue)
       \<lparr>waitingForAddCh := [\<lparr>data = ''a'', readyAt = 10, index = 0\<rparr>]\<rparr>) ''b'' 5 0 =
     Returns ((newDelayingQueue newQueue)
       \<lparr>waitingForAddCh := [\<lparr>data = ''a'', readyAt = 10, index = 0\<rparr>,
                            \<lparr>data = ''b'', readyAt = 5, index = 0\<rparr>]\<rparr>)"
    by (simp add: loop_evals)
  have c: "waitingLoop_iteration 0 WakeRequest 0
     (no_waiting,
      (newDelayingQueue newQueue)
       \<lparr>waitingForAddCh := [\<lparr>data = ''a'', readyAt = 10, index = 0\<rparr>,
                            \<lparr>data = ''b'', readyAt = 5, index = 0\<rparr>]\<rparr>) =
     Continues
       (\<lparr>store = [1 \<mapsto> \<lparr>data = ''b'', readyAt = 5, index = 1\<rparr>,
                  0 \<mapsto> \<lparr>data = ''a'', readyAt = 10, index = 0\<rparr>],
         waitingForQueue = [1, 0], waitingEntryByData = [''a'' \<mapsto> 0, ''b'' \<mapsto> 1],
         allocated = 2\<rparr>,
        newDelayingQueue newQueue)"
    by (simp add: loop_evals heap_evals)
  have d: "AddAfter (newDelayingQueue newQueue) ''a'' 1 6 =
     Returns ((newDelayingQueue newQueue)
       \<lparr>waitingForAddCh := [\<lparr>data = ''a'', readyAt = 7, index = 0\<rparr>]\<rparr>)"
    by (simp add: loop_evals)
  have e: "addReadyEntries 5
     \<lparr>store = [1 \<mapsto> \<lparr>data = ''b'', readyAt = 5, index = 1\<rparr>,
                0 \<mapsto> \<lparr>data = ''a'', readyAt = 10, index = 0\<rparr>],
       waitingForQueue = [1, 0], waitingEntryByData = [''a'' \<mapsto> 0, ''b'' \<mapsto> 1],
       allocated = 2\<rparr> newQueue =
     Some (\<lparr>store = [1 \<mapsto> \<lparr>data = ''b'', readyAt = 5, index = - 1\<rparr>,
                     0 \<mapsto> \<lparr>data = ''a'', readyAt = 10, index = 1\<rparr>],
            waitingForQueue = [0], waitingEntryByData = [''a'' \<mapsto> 0], allocated = 2\<rparr>,
           Add ''b'' newQueue)"
    by (simp add: heap_evals fun_eq_iff)
  have f: "insert_entry
     \<lparr>store = [1 \<mapsto> \<lparr>data = ''b'', readyAt = 5, index = - 1\<rparr>,
                0 \<mapsto> \<lparr>data = ''a'', readyAt = 10, index = 1\<rparr>],
       waitingForQueue = [0], waitingEntryByData = [''a'' \<mapsto> 0], allocated = 2\<rparr>
     \<lparr>data = ''a'', readyAt = 7, index = 0\<rparr> = None"
    by (simp add: heap_evals)
  have g: "waitingLoop_iteration 5 WakeRequest 6
     (\<lparr>store = [1 \<mapsto> \<lparr>data = ''b'', readyAt = 5, index = 1\<rparr>,
                 0 \<mapsto> \<lparr>data = ''a'', readyAt = 10, index = 0\<rparr>],
        waitingForQueue = [1, 0], waitingEntryByData = [''a'' \<mapsto> 0, ''b'' \<mapsto> 1],
        allocated = 2\<rparr>,
      (newDelayingQueue newQueue)
        \<lparr>waitingForAddCh := [\<lparr>data = ''a'', readyAt = 7, index = 0\<rparr>]\<rparr>) = Panics"
    by (simp add: loop_evals heap_evals)
  from a b c d e f g show ?thesis by blast
qed

section \<open>Properties of the rate-limited queue\<close>

text \<open>
  Claim C8. \<open>AddRateLimited\<close> does to the delaying queue what \<open>AddAfter\<close> does with
  the delay that the limiter's \<open>When\<close> returns for the item, leaves the limiter
  objects as that \<open>When\<close> call left them, and keeps its limiter; it returns when that
  \<open>When\<close> call returns. \<open>Forget\<close> of the queue is \<open>Forget\<close> of the limiter: it
  changes the limiter objects as that call does and nothing else, so it leaves the
  delaying queue as it was, and with it the work queue's pending sequence, dirty set and
  processing set. \<open>NumRequeues\<close> of the queue is \<open>NumRequeues\<close> of the limiter.
  For a queue whose limiter \<open>l\<close> holds no other limiter, the three are
  \<open>AddAfter\<close> with the delay of \<open>When\<close> of \<open>l\<close>, \<open>Forget\<close> of \<open>l\<close> and
  \<open>NumRequeues\<close> of \<open>l\<close>.
\<close>

theorem AddRateLimited_delegates:
  "map_option (map_outcome DelayingInterface) (AddRateLimited conv n q k now) =
     map_option (\<lambda>(delay, h). AddAfter (DelayingInterface q) k delay now)
       (When_at conv n (limiter_objects q) (rateLimiter q) k) \<and>
   map_option (map_outcome limiter_objects) (AddRateLimited conv n q k now) =
     map_option (\<lambda>(delay, h). map_outcome (\<lambda>d. h) (AddAfter (DelayingInterface q) k delay now))
       (When_at conv n (limiter_objects q) (rateLimiter q) k) \<and>
   map_option (map_outcome rateLimiter) (AddRateLimited conv n q k now) =
     map_option (\<lambda>(delay, h).
         map_outcome (\<lambda>d. rateLimiter q) (AddAfter (DelayingInterface q) k delay now))
       (When_at conv n (limiter_objects q) (rateLimiter q) k) \<and>
   AddRateLimited conv (Suc n)
       \<lparr>DelayingInterface = d, rateLimiter = 0, limiter_objects = [Leaf l]\<rparr> k now =
     Some (map_outcome
       (\<lambda>d'. \<lparr>DelayingInterface = d', rateLimiter = 0,
              limiter_objects = [Leaf (snd (When conv l k))]\<rparr>)
       (AddAfter d k (fst (When conv l k)) now)) \<and>
   Forget_q n q k =
     map_option (\<lambda>h. q\<lparr>limiter_objects := h\<rparr>)
       (Forget_at n (limiter_objects q) (rateLimiter q) k) \<and>
   map_option DelayingInterface (Forget_q n q k) =
     map_option (\<lambda>h. DelayingInterface q) (Forget_at n (limiter_objects q) (rateLimiter q) k) \<and>
   map_option (\<lambda>q'. queue (Interface (DelayingInterface q'))) (Forget_q n q k) =
     map_option (\<lambda>h. queue (Interface (DelayingInterface q)))
       (Forget_at n (limiter_objects q) (rateLimiter q) k) \<and>
   map_option (\<lambda>q'. dirty (Interface (DelayingInterface q'))) (Forget_q n q k) =
     map_option (\<lambda>h. dirty (Interface (DelayingInterface q)))
       (Forget_at n (limiter_objects q) (rateLimiter q) k) \<and>
   map_option (\<lambda>q'. processing (Interface (DelayingInterface q'))) (Forget_q n q k) =
     map_option (\<lambda>h. processing (Interface (DelayingInterface q)))
       (Forget_at n (limiter_objects q) (rateLimiter q) k) \<and>
   Forget_q (Suc n) \<lparr>DelayingInterface = d, rateLimiter = 0, limiter_objects = [Leaf l]\<rparr> k =
     Some \<lparr>DelayingInterface = d, rateLimiter = 0, limiter_objects = [Leaf (Forget l k)]\<rparr> \<and>
   NumRequeues_q n q k = NumRequeues_at n (limiter_objects q) (rateLimiter q) k \<and>
   NumRequeues_q (Suc n) \<lparr>DelayingInterface = d, rateLimiter = 0, limiter_objects = [Leaf l]\<rparr> k =
     Some (NumRequeues l k)"
  by (simp add: AddRateLimited_def Forget_q_def NumRequeues_q_def node_at_def
      split: prod.splits outcome.splits option.splits)
end
